theory Spec2Isabelle
  imports Main "HOL-Library.Multiset" "HOL-Library.Sublist"
begin

section \<open>Strings of the Python runtime\<close>

text \<open>
  A Python \<^verbatim>\<open>str\<close> is a sequence of code points. It is modelled as a \<^typ>\<open>string\<close>, each
  \<^typ>\<open>char\<close> standing for one code point below 256; the character classes below are
  Python's classes restricted to that range.
\<close>

abbreviation LF :: char where
  "LF \<equiv> CHR 0x0A"

text \<open>
  \<^verbatim>\<open>str.isspace\<close> on one character: TAB, LF, VT, FF, CR, the separators FS, GS, RS, US,
  the space, NEL (0x85) and the no-break space (0xA0).
\<close>

definition whitespace :: "char list" where
  "whitespace = [CHR 0x09, CHR 0x0A, CHR 0x0B, CHR 0x0C, CHR 0x0D,
                 CHR 0x1C, CHR 0x1D, CHR 0x1E, CHR 0x1F, CHR 0x20, CHR 0x85, CHR 0xA0]"

definition is_space :: "char \<Rightarrow> bool" where
  "is_space c = (c \<in> set whitespace)"

text \<open>\<^verbatim>\<open>s.strip()\<close>: leading and trailing whitespace removed.\<close>

definition lstrip :: "string \<Rightarrow> string" where
  "lstrip s = dropWhile is_space s"

definition rstrip :: "string \<Rightarrow> string" where
  "rstrip s = rev (dropWhile is_space (rev s))"

definition strip :: "string \<Rightarrow> string" where
  "strip s = rstrip (lstrip s)"

text \<open>
  \<^verbatim>\<open>s.split('\n')\<close>: the pieces between line feeds, so the empty string gives one
  empty piece and a trailing line feed gives a last empty piece.
\<close>

fun split_nl :: "string \<Rightarrow> string list" where
  "split_nl [] = [[]]"
| "split_nl (c # cs) =
     (if c = LF then [] # split_nl cs
      else (case split_nl cs of
              piece # pieces \<Rightarrow> (c # piece) # pieces
            | [] \<Rightarrow> [[c]]))"

text \<open>\<^verbatim>\<open>sep.join(xs)\<close>.\<close>

fun str_join :: "string \<Rightarrow> string list \<Rightarrow> string" where
  "str_join sep [] = []"
| "str_join sep [x] = x"
| "str_join sep (x # y # ys) = x @ sep @ str_join sep (y # ys)"

text \<open>
  The class \<^verbatim>\<open>\d\<close> and \<^verbatim>\<open>int\<close> on a match of \<^verbatim>\<open>\d+\<close>: decimal digits, read in base ten
  into Python's unbounded integers. A match of \<^verbatim>\<open>\d+\<close> carries no sign, so the value is
  a natural number, and \<^verbatim>\<open>int\<close> is called on such matches only (lemma
  \<open>re_match_index_digits\<close> below). \<open>int_of_digits\<close> is the value \<^verbatim>\<open>int\<close> returns when it
  returns. It raises ValueError on a string of more digits than the interpreter's cap:
  that is \<open>py_int\<close> below, and the functions named \<open>raising\<close> carry this error through
  the loop of either variant.
\<close>

definition is_digit :: "char \<Rightarrow> bool" where
  "is_digit c = (c \<in> set ''0123456789'')"

definition digit_value :: "char \<Rightarrow> nat" where
  "digit_value c = of_char c - 48"

definition int_of_digits :: "string \<Rightarrow> nat" where
  "int_of_digits ds = foldl (\<lambda>a c. 10 * a + digit_value c) 0 ds"

text \<open>
  The decimal text of a non-negative integer, as an f-string field \<^verbatim>\<open>{n}\<close> renders it.
\<close>

definition digit_char :: "nat \<Rightarrow> char" where
  "digit_char d = char_of (48 + d)"

fun str_nat :: "nat \<Rightarrow> string" where
  "str_nat n = (if n < 10 then [digit_char n] else str_nat (n div 10) @ [digit_char (n mod 10)])"

declare str_nat.simps [simp del]

text \<open>
  \<^verbatim>\<open>re.match(r'^\[(\d+)\](.*)', line)\<close>: the result is the pair of groups 1 and 2, or
  \<^const>\<open>None\<close> when the pattern does not match at the start of the line. Group 1 is the
  whole run of digits after the bracket (a shorter run would be followed by a digit,
  not by the closing bracket); group 2 is greedy and the dot matches every character
  but the line feed.
\<close>

definition re_match_index :: "string \<Rightarrow> (string \<times> string) option" where
  "re_match_index line =
     (case line of
        [] \<Rightarrow> None
      | c # rest \<Rightarrow>
          if c = CHR ''[''
          then (let ds = takeWhile is_digit rest; after = dropWhile is_digit rest
                in if ds = [] then None
                   else (case after of
                           [] \<Rightarrow> None
                         | d # more \<Rightarrow>
                             if d = CHR '']''
                             then Some (ds, takeWhile (\<lambda>x. x \<noteq> LF) more)
                             else None))
          else None)"

section \<open>Data model\<close>

text \<open>An input or output item is the JSON object \<^verbatim>\<open>{"text": ...}\<close>.\<close>

record item =
  text' :: string

datatype py_error = IndexError | ValueError

text \<open>
  \<^verbatim>\<open>int(s)\<close> on a match of \<^verbatim>\<open>\d+\<close>, with its error: the interpreter refuses a string of
  more than 4300 digits (the default of \<^verbatim>\<open>sys.get_int_max_str_digits()\<close>, which the program
  does not change) and raises ValueError; leading zeros count.
\<close>

definition max_str_digits :: nat where
  "max_str_digits = 4300"

definition py_int :: "string \<Rightarrow> py_error + nat" where
  "py_int ds = (if max_str_digits < length ds then Inl ValueError else Inr (int_of_digits ds))"

text \<open>
  The working state of the response scanner: the local variables \<^verbatim>\<open>translations\<close>,
  \<^verbatim>\<open>current_index\<close> and \<^verbatim>\<open>current_text\<close>.
\<close>

record scan =
  translations' :: "(nat \<times> string) list"
  current_index :: "nat option"
  current_text :: string

definition scan_init :: scan where
  "scan_init = \<lparr>translations' = [], current_index = None, current_text = []\<rparr>"

section \<open>The batch variant: \<^verbatim>\<open>process_entire_json\<close> of main_code.py\<close>

text \<open>
  The prompt (lines 27 to 54). The template literal has the one replacement field
  \<^verbatim>\<open>{0}\<close>; \<^verbatim>\<open>format\<close> puts its argument there, so the prompt is the text before the
  field, the joined items, and the text after the field.
\<close>

definition texts_with_indices :: "item list \<Rightarrow> string list" where
  "texts_with_indices data =
     map (\<lambda>(i, t). ''['' @ str_nat (i + 1) @ ''] '' @ t) (enumerate 0 (map text' data))"

definition template_head :: string where
  "template_head = str_join [LF]
     ['''',
      ''    Translate the following English texts to natural, conversational Hinglish (Hindi-English mix).'',
      '''',
      ''    Guidelines:'',
      ''    1. Keep translations natural sounding, not robotic or literal'',
      ''    2. important : Convert numbers or numerical values to words in '' @ [CHR 0x27] @ ''hindi'' @ [CHR 0x27] @ '' words.'',
      ''    3. Maintain English words that are commonly used in Hinglish conversation'',
      ''    4. Consider context between sentences for a natural flow'',
      ''    5. The output should feel like a casual conversation between Indians'',
      '''',
      ''    For each text below, provide the Hinglish translation. Maintain the numbering format exactly as [1], [2], etc.'',
      '''',
      ''    '']"

definition template_tail :: string where
  "template_tail = str_join [LF]
     ['''',
      '''',
      ''    Return ONLY the translated texts with their corresponding numbers in this exact format:'',
      ''    [1] <Hinglish translation>'',
      ''    [2] <Hinglish translation>'',
      ''    ...'',
      '''',
      ''    Do not include any explanations, only the numbered translations.'',
      ''    '']"

definition prompt :: "item list \<Rightarrow> string" where
  "prompt data = template_head @ str_join [LF, LF] (texts_with_indices data) @ template_tail"

text \<open>
  The body of the scanning loop (lines 72 to 88), for one line of the response, with
  the value of \<^verbatim>\<open>int\<close>; \<open>scan_line_raising\<close> below is the same body with its error.
\<close>

definition scan_line :: "scan \<Rightarrow> string \<Rightarrow> scan" where
  "scan_line st raw =
     (let line = strip raw in
      if line = [] then st
      else (case re_match_index line of
              Some (g1, g2) \<Rightarrow>
                \<lparr>translations' =
                   (case current_index st of
                      Some k \<Rightarrow> translations' st @ [(k, strip (current_text st))]
                    | None \<Rightarrow> translations' st),
                 current_index = Some (int_of_digits g1),
                 current_text = strip g2\<rparr>
            | None \<Rightarrow> st\<lparr>current_text := current_text st @ '' '' @ line\<rparr>))"

text \<open>After the loop (lines 91 and 92): the entry still open is saved.\<close>

definition scan_finish :: "scan \<Rightarrow> (nat \<times> string) list" where
  "scan_finish st =
     (case current_index st of
        Some k \<Rightarrow> translations' st @ [(k, strip (current_text st))]
      | None \<Rightarrow> translations' st)"

text \<open>Lines 66 to 92 on a list of lines, and on the text of the response (line 60).\<close>

definition parse_lines :: "string list \<Rightarrow> (nat \<times> string) list" where
  "parse_lines ls = scan_finish (foldl scan_line scan_init ls)"

definition parse_response :: "string \<Rightarrow> (nat \<times> string) list" where
  "parse_response response_text = parse_lines (split_nl (strip response_text))"

text \<open>The warning of lines 95 and 96, as the list of lines it prints.\<close>

definition count_warning :: "item list \<Rightarrow> (nat \<times> string) list \<Rightarrow> string list" where
  "count_warning data ts =
     (if length ts \<noteq> length data
      then [''Warning: Expected '' @ str_nat (length data) @ '' translations but got ''
              @ str_nat (length ts) @ ''.'']
      else [])"

text \<open>Lines 102 to 105: the texts of the entries whose ordinal is in range, in order.\<close>

definition keep_entry :: "item list \<Rightarrow> item list \<Rightarrow> nat \<times> string \<Rightarrow> item list" where
  "keep_entry data output_data e =
     (case e of (idx, trans_text) \<Rightarrow>
        if 1 \<le> idx \<and> idx \<le> length data then output_data @ [\<lparr>text' = trans_text\<rparr>]
        else output_data)"

definition collect :: "item list \<Rightarrow> (nat \<times> string) list \<Rightarrow> item list" where
  "collect data ts = foldl (keep_entry data) [] ts"

text \<open>
  Lines 108 to 110: placeholders for the positions from the length of the output on.
  The read \<^verbatim>\<open>data[i]\<close> raises IndexError outside the list.
\<close>

definition placeholder :: "string \<Rightarrow> string" where
  "placeholder t = ''[Translation missing for: '' @ t @ '']''"

fun pad_loop :: "item list \<Rightarrow> nat list \<Rightarrow> item list \<Rightarrow> py_error + item list" where
  "pad_loop data [] output_data = Inr output_data"
| "pad_loop data (i # rest) output_data =
     (if i < length data
      then pad_loop data rest (output_data @ [\<lparr>text' = placeholder (text' (data ! i))\<rparr>])
      else Inl IndexError)"

definition pad :: "item list \<Rightarrow> item list \<Rightarrow> py_error + item list" where
  "pad data output_data =
     (if length output_data < length data
      then pad_loop data [length output_data ..< length data] output_data
      else Inr output_data)"

text \<open>
  The function from the response of the provider on: the warnings printed and the list
  returned (and written to the output file). Reading the input file and the call of
  the provider are outside the model: \<open>data\<close> is the list loaded and
  \<open>response_text\<close> the text the provider answered. The sort of line 99 is stable
  and orders by the ordinal alone, as \<^const>\<open>sort_key\<close> on the first component does.
\<close>

definition process_entire_json :: "item list \<Rightarrow> string \<Rightarrow> py_error + (string list \<times> item list)" where
  "process_entire_json data response_text =
     (let ts = parse_response response_text;
          warnings = count_warning data ts;
          sorted_ts = sort_key fst ts
      in case pad data (collect data sorted_ts) of
           Inl e \<Rightarrow> Inl e
         | Inr output_data \<Rightarrow> Inr (warnings, output_data))"

section \<open>The interactive variant: \<^verbatim>\<open>process_json\<close> of streamlit_app.py\<close>

text \<open>
  The prompt (lines 68 to 93): the same construction on a template whose second
  guideline and blank lines differ.
\<close>

definition texts_with_indices_st :: "item list \<Rightarrow> string list" where
  "texts_with_indices_st data =
     map (\<lambda>(i, t). ''['' @ str_nat (i + 1) @ ''] '' @ t) (enumerate 0 (map text' data))"

definition template_head_st :: string where
  "template_head_st = str_join [LF]
     ['''',
      ''    Translate the following English texts to natural, conversational Hinglish (Hindi-English mix).'',
      ''    '',
      ''    Guidelines:'',
      ''    1. Keep translations natural sounding, not robotic or literal'',
      ''    2. Convert numbers or numerical values or currencies to words in '' @ [CHR 0x27] @ ''hindi'' @ [CHR 0x27] @ ''. '',
      ''    3. Maintain English words that are commonly used in Hinglish conversation'',
      ''    4. Consider context between sentences for a natural flow'',
      ''    5. The output should feel like a casual conversation between Indians'',
      ''    '',
      ''    For each text below, provide the Hinglish translation. Maintain the numbering format exactly as [1], [2], etc.'',
      ''    '',
      ''    '']"

definition template_tail_st :: string where
  "template_tail_st = str_join [LF]
     ['''',
      ''    '',
      ''    Return ONLY the translated texts with their corresponding numbers in this exact format:'',
      ''    [1] <Hinglish translation>'',
      ''    [2] <Hinglish translation>'',
      ''    ...'',
      ''    '',
      ''    Do not include any explanations, only the numbered translations.'',
      ''    '']"

definition prompt_st :: "item list \<Rightarrow> string" where
  "prompt_st data =
     template_head_st @ str_join [LF, LF] (texts_with_indices_st data) @ template_tail_st"

text \<open>The scanning loop (lines 113 to 130) and the save after it (lines 133 and 134).\<close>

definition scan_line_st :: "scan \<Rightarrow> string \<Rightarrow> scan" where
  "scan_line_st st raw =
     (let line = strip raw in
      if line = [] then st
      else (case re_match_index line of
              Some (g1, g2) \<Rightarrow>
                \<lparr>translations' =
                   (case current_index st of
                      Some k \<Rightarrow> translations' st @ [(k, strip (current_text st))]
                    | None \<Rightarrow> translations' st),
                 current_index = Some (int_of_digits g1),
                 current_text = strip g2\<rparr>
            | None \<Rightarrow> st\<lparr>current_text := current_text st @ '' '' @ line\<rparr>))"

definition scan_finish_st :: "scan \<Rightarrow> (nat \<times> string) list" where
  "scan_finish_st st =
     (case current_index st of
        Some k \<Rightarrow> translations' st @ [(k, strip (current_text st))]
      | None \<Rightarrow> translations' st)"

definition parse_response_st :: "string \<Rightarrow> (nat \<times> string) list" where
  "parse_response_st response_text =
     scan_finish_st (foldl scan_line_st scan_init (split_nl (strip response_text)))"

text \<open>Lines 140 to 143 and lines 146 to 148.\<close>

definition collect_st :: "item list \<Rightarrow> (nat \<times> string) list \<Rightarrow> item list" where
  "collect_st data ts =
     foldl (\<lambda>output_data (idx, trans_text).
              if 1 \<le> idx \<and> idx \<le> length data then output_data @ [\<lparr>text' = trans_text\<rparr>]
              else output_data) [] ts"

fun pad_loop_st :: "item list \<Rightarrow> nat list \<Rightarrow> item list \<Rightarrow> py_error + item list" where
  "pad_loop_st data [] output_data = Inr output_data"
| "pad_loop_st data (i # rest) output_data =
     (if i < length data
      then pad_loop_st data rest
             (output_data @ [\<lparr>text' = ''[Translation missing for: '' @ text' (data ! i) @ '']''\<rparr>])
      else Inl IndexError)"

text \<open>
  The function from the response on. It has no check of the number of entries, and
  returns the list only.
\<close>

definition process_json :: "item list \<Rightarrow> string \<Rightarrow> py_error + item list" where
  "process_json data response_text =
     (let output_data = collect_st data (sort_key fst (parse_response_st response_text))
      in if length output_data < length data
         then pad_loop_st data [length output_data ..< length data] output_data
         else Inr output_data)"

section \<open>Both variants with the ValueError of \<^verbatim>\<open>int\<close>\<close>

text \<open>
  The functions above compute with the value of \<^verbatim>\<open>int\<close>. The functions of this section
  are the same lines of the source with the error of \<^verbatim>\<open>int\<close> at line 84 of main_code.py
  and line 126 of streamlit_app.py: the exception leaves the loop and the function, so
  no list is returned. (In main_code.py, \<^verbatim>\<open>main\<close> catches it and prints it; the batch
  writes no output.)
\<close>

definition scan_line_raising :: "scan \<Rightarrow> string \<Rightarrow> py_error + scan" where
  "scan_line_raising st raw =
     (let line = strip raw in
      if line = [] then Inr st
      else (case re_match_index line of
              Some (g1, g2) \<Rightarrow>
                (case py_int g1 of
                   Inl e \<Rightarrow> Inl e
                 | Inr k \<Rightarrow>
                     Inr \<lparr>translations' =
                            (case current_index st of
                               Some j \<Rightarrow> translations' st @ [(j, strip (current_text st))]
                             | None \<Rightarrow> translations' st),
                          current_index = Some k,
                          current_text = strip g2\<rparr>)
            | None \<Rightarrow> Inr (st\<lparr>current_text := current_text st @ '' '' @ line\<rparr>)))"

fun scan_loop_raising :: "scan \<Rightarrow> string list \<Rightarrow> py_error + scan" where
  "scan_loop_raising st [] = Inr st"
| "scan_loop_raising st (raw # ls) =
     (case scan_line_raising st raw of
        Inl e \<Rightarrow> Inl e
      | Inr st' \<Rightarrow> scan_loop_raising st' ls)"

definition process_entire_json_raising ::
    "item list \<Rightarrow> string \<Rightarrow> py_error + (string list \<times> item list)" where
  "process_entire_json_raising data response_text =
     (case scan_loop_raising scan_init (split_nl (strip response_text)) of
        Inl e \<Rightarrow> Inl e
      | Inr st \<Rightarrow>
          (let ts = scan_finish st;
               warnings = count_warning data ts;
               sorted_ts = sort_key fst ts
           in case pad data (collect data sorted_ts) of
                Inl e \<Rightarrow> Inl e
              | Inr output_data \<Rightarrow> Inr (warnings, output_data)))"

definition scan_line_st_raising :: "scan \<Rightarrow> string \<Rightarrow> py_error + scan" where
  "scan_line_st_raising st raw =
     (let line = strip raw in
      if line = [] then Inr st
      else (case re_match_index line of
              Some (g1, g2) \<Rightarrow>
                (case py_int g1 of
                   Inl e \<Rightarrow> Inl e
                 | Inr k \<Rightarrow>
                     Inr \<lparr>translations' =
                            (case current_index st of
                               Some j \<Rightarrow> translations' st @ [(j, strip (current_text st))]
                             | None \<Rightarrow> translations' st),
                          current_index = Some k,
                          current_text = strip g2\<rparr>)
            | None \<Rightarrow> Inr (st\<lparr>current_text := current_text st @ '' '' @ line\<rparr>)))"

fun scan_loop_st_raising :: "scan \<Rightarrow> string list \<Rightarrow> py_error + scan" where
  "scan_loop_st_raising st [] = Inr st"
| "scan_loop_st_raising st (raw # ls) =
     (case scan_line_st_raising st raw of
        Inl e \<Rightarrow> Inl e
      | Inr st' \<Rightarrow> scan_loop_st_raising st' ls)"

definition process_json_raising :: "item list \<Rightarrow> string \<Rightarrow> py_error + item list" where
  "process_json_raising data response_text =
     (case scan_loop_st_raising scan_init (split_nl (strip response_text)) of
        Inl e \<Rightarrow> Inl e
      | Inr st \<Rightarrow>
          (let output_data = collect_st data (sort_key fst (scan_finish_st st))
           in if length output_data < length data
              then pad_loop_st data [length output_data ..< length data] output_data
              else Inr output_data))"

section \<open>Notions the properties are stated with\<close>

text \<open>
  The well-formed response for the texts \<open>ts\<close> has the lines \<^verbatim>\<open>[1] t1\<close> to \<^verbatim>\<open>[N] tN\<close>.
\<close>

definition entry_line :: "nat \<Rightarrow> string \<Rightarrow> string" where
  "entry_line k t = ''['' @ str_nat k @ ''] '' @ t"

definition numbered :: "string list \<Rightarrow> string list" where
  "numbered ts = map (\<lambda>(i, t). entry_line (i + 1) t) (enumerate 0 ts)"

text \<open>A line is a marker line when the pattern matches it once trimmed.\<close>

definition is_marker :: "string \<Rightarrow> bool" where
  "is_marker raw = (re_match_index (strip raw) \<noteq> None)"

text \<open>The ordinals in range for an input of length \<open>n\<close>.\<close>

definition in_range :: "nat \<Rightarrow> nat \<times> string \<Rightarrow> bool" where
  "in_range n e = (1 \<le> fst e \<and> fst e \<le> n)"

text \<open>
  The responses on which \<^verbatim>\<open>int\<close> raises nowhere: every marker line has a number of at most
  \<open>max_str_digits\<close> digits.
\<close>

definition marker_accepted :: "string \<Rightarrow> bool" where
  "marker_accepted raw =
     (case re_match_index (strip raw) of
        None \<Rightarrow> True
      | Some (g1, g2) \<Rightarrow> length g1 \<le> max_str_digits)"

definition markers_accepted :: "string \<Rightarrow> bool" where
  "markers_accepted response_text = list_all marker_accepted (split_nl (strip response_text))"

text \<open>The placeholders of the input positions from \<open>k\<close> on.\<close>

definition placeholders_from :: "item list \<Rightarrow> nat \<Rightarrow> item list" where
  "placeholders_from data k = map (\<lambda>d. \<lparr>text' = placeholder (text' d)\<rparr>) (drop k data)"

text \<open>
  The entries the loop yields on the remaining lines when it starts with the given open
  entry (its ordinal, if any, and its text so far), as a recursive function; lemma
  \<open>scan_loop\<close> below relates it to the loop.
\<close>

fun scan_from :: "nat option \<Rightarrow> string \<Rightarrow> string list \<Rightarrow> (nat \<times> string) list" where
  "scan_from ci ct [] = (case ci of Some k \<Rightarrow> [(k, strip ct)] | None \<Rightarrow> [])"
| "scan_from ci ct (raw # ls) =
     (if strip raw = [] then scan_from ci ct ls
      else (case re_match_index (strip raw) of
              Some (g1, g2) \<Rightarrow>
                (case ci of Some k \<Rightarrow> [(k, strip ct)] | None \<Rightarrow> [])
                  @ scan_from (Some (int_of_digits g1)) (strip g2) ls
            | None \<Rightarrow> scan_from ci (ct @ '' '' @ strip raw) ls))"

text \<open>The lines the loop does not skip (lines 72 to 74), trimmed.\<close>

definition content_lines :: "string list \<Rightarrow> string list" where
  "content_lines ls = filter (\<lambda>l. l \<noteq> []) (map strip ls)"

text \<open>The entry a marker line opens when no continuation line follows it.\<close>

definition marker_entry :: "string \<Rightarrow> nat \<times> string" where
  "marker_entry raw =
     (case re_match_index (strip raw) of
        Some (g1, g2) \<Rightarrow> (int_of_digits g1, strip g2)
      | None \<Rightarrow> (0, []))"

text \<open>
  The text of an entry whose marker line has the remainder \<open>g2\<close> and whose continuation
  lines are \<open>cs\<close>: the pieces that are not empty once trimmed, joined by single spaces.
\<close>

definition joined_text :: "string \<Rightarrow> string list \<Rightarrow> string" where
  "joined_text g2 cs = str_join '' '' (filter (\<lambda>p. p \<noteq> []) (strip g2 # content_lines cs))"

section \<open>Lemmas on the string operations and on the loops\<close>

subsection \<open>Trimming\<close>

lemma lstrip_Nil [simp]: "lstrip [] = []"
  by (simp add: lstrip_def)

lemma rstrip_Nil [simp]: "rstrip [] = []"
  by (simp add: rstrip_def)

lemma strip_Nil [simp]: "strip [] = []"
  by (simp add: strip_def)

lemma lstrip_spaces: "\<forall>c\<in>set w. is_space c \<Longrightarrow> lstrip (w @ s) = lstrip s"
  by (induction w) (simp_all add: lstrip_def)

lemma rstrip_spaces: "\<forall>c\<in>set w. is_space c \<Longrightarrow> rstrip (s @ w) = rstrip s"
  by (simp add: rstrip_def dropWhile_append)

lemma rstrip_append:
  "rstrip (a @ b) = (if \<forall>c\<in>set b. is_space c then rstrip a else a @ rstrip b)"
  by (simp add: rstrip_def dropWhile_append)

lemma lstrip_append:
  "lstrip (a @ b) = (if \<forall>c\<in>set a. is_space c then lstrip b else lstrip a @ b)"
  by (auto simp add: lstrip_def dropWhile_append dropWhile_eq_Nil_conv)

lemma set_lstrip: "set (lstrip s) \<subseteq> set s"
  by (simp add: lstrip_def set_dropWhileD subsetI)

lemma set_rstrip: "set (rstrip s) \<subseteq> set s"
  using set_dropWhileD [of _ is_space "rev s"] by (auto simp add: rstrip_def)

lemma lstrip_eq_Nil: "lstrip s = [] \<longleftrightarrow> (\<forall>c\<in>set s. is_space c)"
  by (simp add: lstrip_def dropWhile_eq_Nil_conv)

lemma rstrip_eq_Nil: "rstrip s = [] \<longleftrightarrow> (\<forall>c\<in>set s. is_space c)"
  by (simp add: rstrip_def dropWhile_eq_Nil_conv)

lemma strip_eq_Nil: "strip s = [] \<longleftrightarrow> (\<forall>c\<in>set s. is_space c)"
proof
  assume "strip s = []"
  then have "\<forall>c\<in>set (lstrip s). is_space c"
    by (simp add: strip_def rstrip_eq_Nil)
  then have "lstrip (lstrip s) = []" by (simp add: lstrip_eq_Nil)
  then have "lstrip s = []" by (simp add: lstrip_def dropWhile_idem)
  then show "\<forall>c\<in>set s. is_space c" by (simp add: lstrip_eq_Nil)
next
  assume "\<forall>c\<in>set s. is_space c"
  then have "lstrip s = []" by (simp add: lstrip_eq_Nil)
  then show "strip s = []" by (simp add: strip_def)
qed

lemma strip_spaces_left: "\<forall>c\<in>set w. is_space c \<Longrightarrow> strip (w @ s) = strip s"
  by (simp add: strip_def lstrip_spaces)

lemma strip_spaces_right:
  assumes "\<forall>c\<in>set w. is_space c"
  shows "strip (s @ w) = strip s"
proof (cases "\<forall>c\<in>set s. is_space c")
  case True
  with assms have "\<forall>c\<in>set (s @ w). is_space c" by auto
  then have "strip (s @ w) = []" by (simp only: strip_eq_Nil)
  moreover from True have "strip s = []" by (simp only: strip_eq_Nil)
  ultimately show ?thesis by simp
next
  case False
  then have "lstrip (s @ w) = lstrip s @ w" by (auto simp add: lstrip_append)
  with assms show ?thesis by (simp add: strip_def rstrip_spaces)
qed

lemma lstrip_hd: "lstrip s \<noteq> [] \<Longrightarrow> \<not> is_space (hd (lstrip s))"
  by (simp add: lstrip_def hd_dropWhile)

lemma rstrip_last: "rstrip s \<noteq> [] \<Longrightarrow> \<not> is_space (last (rstrip s))"
  by (simp add: rstrip_def last_rev hd_dropWhile)

lemma lstrip_id: "s = [] \<or> \<not> is_space (hd s) \<Longrightarrow> lstrip s = s"
  by (cases s) (auto simp add: lstrip_def)

lemma rstrip_id: "s = [] \<or> \<not> is_space (last s) \<Longrightarrow> rstrip s = s"
  by (cases s rule: rev_cases) (auto simp add: rstrip_def)

lemma hd_rstrip: "rstrip s \<noteq> [] \<Longrightarrow> hd (rstrip s) = hd s"
proof (cases s)
  case Nil
  then show ?thesis by simp
next
  case (Cons a r)
  assume ne: "rstrip s \<noteq> []"
  have split: "rstrip ([a] @ r) = (if \<forall>c\<in>set r. is_space c then rstrip [a] else [a] @ rstrip r)"
    by (rule rstrip_append)
  show ?thesis
  proof (cases "\<forall>c\<in>set r. is_space c")
    case True
    with split Cons ne have "rstrip [a] \<noteq> []" by simp
    then have "rstrip [a] = [a]" by (simp add: rstrip_def split: if_splits)
    with split True Cons show ?thesis by simp
  next
    case False
    with split Cons show ?thesis by simp
  qed
qed

lemma strip_hd: "strip s \<noteq> [] \<Longrightarrow> \<not> is_space (hd (strip s))"
proof -
  assume a: "strip s \<noteq> []"
  then have "lstrip s \<noteq> []" by (auto simp add: strip_def)
  then have "\<not> is_space (hd (lstrip s))" by (rule lstrip_hd)
  moreover from a have "hd (strip s) = hd (lstrip s)"
    by (simp add: strip_def hd_rstrip)
  ultimately show ?thesis by simp
qed

lemma strip_last: "strip s \<noteq> [] \<Longrightarrow> \<not> is_space (last (strip s))"
  by (simp add: strip_def rstrip_last)

lemma strip_id: "s = [] \<or> (\<not> is_space (hd s) \<and> \<not> is_space (last s)) \<Longrightarrow> strip s = s"
  by (auto simp add: strip_def lstrip_id rstrip_id)

lemma strip_strip [simp]: "strip (strip s) = strip s"
  by (rule strip_id) (use strip_hd strip_last in blast)

subsection \<open>Splitting at line feeds\<close>

lemma split_nl_not_Nil [simp]: "split_nl s \<noteq> []"
  by (cases s) (simp_all split: list.splits)

lemma split_nl_Cons [simp]:
  "split_nl (c # cs) =
     (if c = LF then [] # split_nl cs else (c # hd (split_nl cs)) # tl (split_nl cs))"
  by (cases "split_nl cs") simp_all

declare split_nl.simps(2) [simp del]

lemma split_nl_no_LF: "LF \<notin> set s \<Longrightarrow> split_nl s = [s]"
  by (induction s) auto

lemma split_nl_line: "LF \<notin> set l \<Longrightarrow> split_nl (l @ LF # s) = l # split_nl s"
  by (induction l) auto

lemma split_nl_append:
  "split_nl (a @ b) =
     butlast (split_nl a) @ [last (split_nl a) @ hd (split_nl b)] @ tl (split_nl b)"
proof (induction a)
  case Nil
  then show ?case by simp
next
  case (Cons c a)
  show ?case
  proof (cases "c = LF")
    case True
    with Cons show ?thesis by simp
  next
    case False
    obtain x xs where s: "split_nl a = x # xs"
      by (cases "split_nl a") simp_all
    show ?thesis
    proof (cases xs)
      case Nil
      with False Cons s show ?thesis by simp
    next
      case (Cons y ys)
      with False Cons.IH s show ?thesis by simp
    qed
  qed
qed

lemma split_nl_join:
  "ls \<noteq> [] \<Longrightarrow> \<forall>l\<in>set ls. LF \<notin> set l \<Longrightarrow> split_nl (str_join [LF] ls) = ls"
proof (induction ls)
  case Nil
  then show ?case by simp
next
  case (Cons x ls)
  show ?case
  proof (cases ls)
    case Nil
    with Cons.prems show ?thesis by (simp add: split_nl_no_LF)
  next
    case (Cons y ys)
    with Cons.IH Cons.prems have "split_nl (str_join [LF] ls) = ls" by simp
    with Cons Cons.prems show ?thesis by (simp add: split_nl_line)
  qed
qed

lemma split_nl_spaces:
  "\<forall>c\<in>set w. is_space c \<Longrightarrow> \<forall>l\<in>set (split_nl w). \<forall>c\<in>set l. is_space c"
proof (induction w)
  case Nil
  then show ?case by simp
next
  case (Cons c w)
  obtain x xs where s: "split_nl w = x # xs"
    by (cases "split_nl w") simp_all
  with Cons show ?case by auto
qed

subsection \<open>Decimal digits\<close>

lemma digit_chars: "\<forall>d\<in>set [0..<10]. is_digit (digit_char d)"
  by code_simp

lemma is_digit_digit_char: "d < 10 \<Longrightarrow> is_digit (digit_char d)"
  using digit_chars by simp

lemma digit_value_digit_char: "d < 10 \<Longrightarrow> digit_value (digit_char d) = d"
  by (simp add: digit_value_def digit_char_def)

lemma str_nat_not_Nil [simp]: "str_nat n \<noteq> []"
  by (subst str_nat.simps) simp

lemma str_nat_digits: "\<forall>c\<in>set (str_nat n). is_digit c"
proof (induction n rule: str_nat.induct)
  case (1 n)
  show ?case
  proof (cases "n < 10")
    case True
    then show ?thesis by (subst str_nat.simps) (simp add: is_digit_digit_char)
  next
    case False
    with 1 show ?thesis by (subst str_nat.simps) (simp add: is_digit_digit_char)
  qed
qed

lemma int_of_digits_snoc:
  "int_of_digits (ds @ [c]) = 10 * int_of_digits ds + digit_value c"
  by (simp add: int_of_digits_def)

lemma int_of_digits_str_nat: "int_of_digits (str_nat n) = n"
proof (induction n rule: str_nat.induct)
  case (1 n)
  show ?case
  proof (cases "n < 10")
    case True
    then show ?thesis
      by (subst str_nat.simps) (simp add: int_of_digits_def digit_value_digit_char)
  next
    case False
    with 1 have "int_of_digits (str_nat (n div 10)) = n div 10" by simp
    with False show ?thesis
      by (subst str_nat.simps) (simp add: int_of_digits_snoc digit_value_digit_char)
  qed
qed

subsection \<open>The pattern\<close>

lemma re_match_index_marker:
  assumes "ds \<noteq> []" and "\<forall>c\<in>set ds. is_digit c" and "LF \<notin> set r"
  shows "re_match_index (''['' @ ds @ '']'' @ r) = Some (ds, r)"
proof -
  have not_digit: "\<not> is_digit CHR '']''" by (simp add: is_digit_def)
  from assms(2) not_digit have tw: "takeWhile is_digit (ds @ CHR '']'' # r) = ds"
    by (simp add: takeWhile_append2)
  from assms(2) not_digit have dw: "dropWhile is_digit (ds @ CHR '']'' # r) = CHR '']'' # r"
    by (simp add: dropWhile_append2)
  from assms(3) have "takeWhile (\<lambda>x. x \<noteq> LF) r = r"
    by (auto simp add: takeWhile_eq_all_conv)
  with tw dw assms(1) show ?thesis
    by (simp add: re_match_index_def)
qed

lemma re_match_index_digits:
  "re_match_index l = Some (g1, g2) \<Longrightarrow> g1 \<noteq> [] \<and> (\<forall>c\<in>set g1. is_digit c)"
  by (auto simp add: re_match_index_def Let_def split: list.splits if_splits dest: set_takeWhileD)

subsection \<open>The scanning loop as a list function\<close>

lemma scan_loop:
  "scan_finish (foldl scan_line st ls)
     = translations' st @ scan_from (current_index st) (current_text st) ls"
proof (induction ls arbitrary: st)
  case Nil
  then show ?case by (simp add: scan_finish_def split: option.splits)
next
  case (Cons raw ls)
  show ?case
  proof (cases "strip raw = []")
    case True
    with Cons show ?thesis by (simp add: scan_line_def)
  next
    case False
    show ?thesis
    proof (cases "re_match_index (strip raw)")
      case None
      with False Cons [of "scan_line st raw"] show ?thesis
        by (simp add: scan_line_def)
    next
      case (Some g)
      obtain g1 g2 where g: "g = (g1, g2)" by (cases g)
      with Some False Cons [of "scan_line st raw"] show ?thesis
        by (simp add: scan_line_def split: option.splits)
    qed
  qed
qed

lemma parse_lines_scan_from: "parse_lines ls = scan_from None [] ls"
  by (simp add: parse_lines_def scan_loop scan_init_def)

lemma scan_from_None_text: "scan_from None ct ls = scan_from None [] ls"
proof (induction ls arbitrary: ct)
  case Nil
  then show ?case by simp
next
  case (Cons raw ls)
  have "scan_from None (ct @ '' '' @ strip raw) ls = scan_from None [] ls"
    by (rule Cons)
  moreover have "scan_from None ([] @ '' '' @ strip raw) ls = scan_from None [] ls"
    by (rule Cons)
  moreover have "scan_from None ct ls = scan_from None [] ls"
    by (rule Cons)
  ultimately show ?case by (simp split: option.splits)
qed

lemma scan_from_content: "scan_from ci ct ls = scan_from ci ct (content_lines ls)"
proof (induction ls arbitrary: ci ct)
  case Nil
  then show ?case by (simp add: content_lines_def)
next
  case (Cons raw ls)
  have tl: "content_lines (raw # ls)
              = (if strip raw = [] then content_lines ls else strip raw # content_lines ls)"
    by (simp add: content_lines_def)
  show ?case
  proof (cases "strip raw = []")
    case True
    with Cons tl show ?thesis by simp
  next
    case False
    with tl Cons show ?thesis by (simp split: option.splits)
  qed
qed

lemma content_lines_append:
  "content_lines (xs @ ys) = content_lines xs @ content_lines ys"
  by (simp add: content_lines_def)

lemma content_lines_blank:
  "\<forall>l\<in>set ls. \<forall>c\<in>set l. is_space c \<Longrightarrow> content_lines ls = []"
  by (induction ls) (simp_all add: content_lines_def strip_eq_Nil)

lemma content_lines_split_left:
  assumes "\<forall>c\<in>set w. is_space c"
  shows "content_lines (split_nl (w @ s)) = content_lines (split_nl s)"
proof -
  have blank: "\<forall>l\<in>set (split_nl w). \<forall>c\<in>set l. is_space c"
    using assms by (rule split_nl_spaces)
  then have "\<forall>l\<in>set (butlast (split_nl w)). \<forall>c\<in>set l. is_space c"
    by (meson in_set_butlastD)
  then have b: "content_lines (butlast (split_nl w)) = []"
    by (rule content_lines_blank)
  from blank have "\<forall>c\<in>set (last (split_nl w)). is_space c"
    using last_in_set [OF split_nl_not_Nil, of w] by blast
  then have l: "strip (last (split_nl w) @ hd (split_nl s)) = strip (hd (split_nl s))"
    by (rule strip_spaces_left)
  have "content_lines (split_nl (w @ s))
          = content_lines (butlast (split_nl w))
              @ content_lines ([last (split_nl w) @ hd (split_nl s)] @ tl (split_nl s))"
    by (simp only: split_nl_append content_lines_append)
  also have "\<dots> = content_lines [hd (split_nl s)] @ content_lines (tl (split_nl s))"
    using b l by (simp add: content_lines_def)
  also have "\<dots> = content_lines ([hd (split_nl s)] @ tl (split_nl s))"
    by (simp only: content_lines_append)
  finally show ?thesis by simp
qed

lemma content_lines_split_right:
  assumes "\<forall>c\<in>set w. is_space c"
  shows "content_lines (split_nl (s @ w)) = content_lines (split_nl s)"
proof -
  have blank: "\<forall>l\<in>set (split_nl w). \<forall>c\<in>set l. is_space c"
    using assms by (rule split_nl_spaces)
  then have "\<forall>l\<in>set (tl (split_nl w)). \<forall>c\<in>set l. is_space c"
    by (meson list.set_sel(2) split_nl_not_Nil)
  then have b: "content_lines (tl (split_nl w)) = []"
    by (rule content_lines_blank)
  from blank have "\<forall>c\<in>set (hd (split_nl w)). is_space c"
    using hd_in_set [OF split_nl_not_Nil, of w] by blast
  then have l: "strip (last (split_nl s) @ hd (split_nl w)) = strip (last (split_nl s))"
    by (rule strip_spaces_right)
  have "content_lines (split_nl (s @ w))
          = content_lines (butlast (split_nl s))
              @ content_lines [last (split_nl s) @ hd (split_nl w)]
              @ content_lines (tl (split_nl w))"
    by (simp only: split_nl_append content_lines_append)
  also have "\<dots> = content_lines (butlast (split_nl s)) @ content_lines [last (split_nl s)]"
    using b l by (simp add: content_lines_def)
  also have "\<dots> = content_lines (butlast (split_nl s) @ [last (split_nl s)])"
    by (simp only: content_lines_append)
  finally show ?thesis by simp
qed

lemma lstrip_decomp: "\<exists>w. (\<forall>c\<in>set w. is_space c) \<and> s = w @ lstrip s"
proof -
  have "s = takeWhile is_space s @ lstrip s" by (simp add: lstrip_def)
  moreover have "\<forall>c\<in>set (takeWhile is_space s). is_space c"
    by (meson set_takeWhileD)
  ultimately show ?thesis by blast
qed

lemma rstrip_decomp: "\<exists>w. (\<forall>c\<in>set w. is_space c) \<and> s = rstrip s @ w"
proof -
  have "rev (takeWhile is_space (rev s) @ dropWhile is_space (rev s)) = rev (rev s)"
    by (simp only: takeWhile_dropWhile_id)
  then have "rev (dropWhile is_space (rev s)) @ rev (takeWhile is_space (rev s)) = s"
    by (simp only: rev_append rev_rev_ident)
  then have "s = rstrip s @ rev (takeWhile is_space (rev s))"
    by (simp add: rstrip_def)
  moreover have "\<forall>c\<in>set (rev (takeWhile is_space (rev s))). is_space c"
    using set_takeWhileD [of _ is_space "rev s"] by simp
  ultimately show ?thesis by blast
qed

lemma content_lines_split_strip:
  "content_lines (split_nl (strip s)) = content_lines (split_nl s)"
proof -
  obtain w1 where w1: "\<forall>c\<in>set w1. is_space c" "s = w1 @ lstrip s"
    using lstrip_decomp by blast
  obtain w2 where w2: "\<forall>c\<in>set w2. is_space c" "lstrip s = rstrip (lstrip s) @ w2"
    using rstrip_decomp by blast
  have "content_lines (split_nl s) = content_lines (split_nl (w1 @ lstrip s))"
    using w1(2) by simp
  also have "\<dots> = content_lines (split_nl (lstrip s))"
    using w1(1) by (rule content_lines_split_left)
  also have "\<dots> = content_lines (split_nl (rstrip (lstrip s) @ w2))"
    using w2(2) by simp
  also have "\<dots> = content_lines (split_nl (rstrip (lstrip s)))"
    using w2(1) by (rule content_lines_split_right)
  finally show ?thesis by (simp add: strip_def)
qed

lemma parse_response_lines: "parse_response s = parse_lines (split_nl s)"
proof -
  have "parse_response s = scan_from None [] (content_lines (split_nl (strip s)))"
    by (simp add: parse_response_def parse_lines_scan_from scan_from_content [symmetric])
  also have "\<dots> = scan_from None [] (content_lines (split_nl s))"
    by (simp only: content_lines_split_strip)
  finally show ?thesis
    by (simp add: parse_lines_scan_from scan_from_content [symmetric])
qed

lemma parse_response_join:
  assumes "\<forall>l\<in>set ls. LF \<notin> set l"
  shows "parse_response (str_join [LF] ls) = parse_lines ls"
proof (cases ls)
  case Nil
  then show ?thesis
    by (simp add: parse_response_lines parse_lines_scan_from)
next
  case (Cons x xs)
  with assms have "split_nl (str_join [LF] ls) = ls"
    by (intro split_nl_join) simp_all
  then show ?thesis by (simp add: parse_response_lines)
qed

subsection \<open>Marker lines and continuation lines\<close>

lemma strip_rstrip: "strip (rstrip s) = strip s"
proof -
  obtain w where w: "\<forall>c\<in>set w. is_space c" "s = rstrip s @ w"
    using rstrip_decomp by blast
  from w(1) have "strip (rstrip s @ w) = strip (rstrip s)"
    by (rule strip_spaces_right)
  with w(2) show ?thesis by simp
qed

lemma is_marker_content: "is_marker raw \<Longrightarrow> strip raw \<noteq> []"
  by (auto simp add: is_marker_def re_match_index_def)

lemma scan_from_marker:
  assumes "re_match_index (strip m) = Some (g1, g2)"
  shows "scan_from ci ct (m # ls)
           = (case ci of Some k \<Rightarrow> [(k, strip ct)] | None \<Rightarrow> [])
               @ scan_from (Some (int_of_digits g1)) (strip g2) ls"
proof -
  from assms have "strip m \<noteq> []" by (auto simp add: re_match_index_def)
  with assms show ?thesis by simp
qed

lemma scan_from_markers:
  "\<forall>l\<in>set ls. is_marker l \<Longrightarrow>
     scan_from ci ct ls
       = (case ci of Some k \<Rightarrow> [(k, strip ct)] | None \<Rightarrow> []) @ map marker_entry ls"
proof (induction ls arbitrary: ci ct)
  case Nil
  then show ?case by simp
next
  case (Cons m ls)
  then obtain g1 g2 where g: "re_match_index (strip m) = Some (g1, g2)"
    by (auto simp add: is_marker_def)
  from Cons.prems have "\<forall>l\<in>set ls. is_marker l" by simp
  then have "scan_from (Some (int_of_digits g1)) (strip g2) ls
               = [(int_of_digits g1, strip (strip g2))] @ map marker_entry ls"
    by (simp add: Cons.IH)
  with g show ?case
    by (simp add: scan_from_marker [OF g] marker_entry_def del: scan_from.simps)
qed

lemma scan_from_continuations:
  "\<forall>c\<in>set cs. \<not> is_marker c \<Longrightarrow>
     scan_from ci ct (cs @ rest)
       = scan_from ci (ct @ concat (map (\<lambda>c. '' '' @ c) (content_lines cs))) rest"
proof (induction cs arbitrary: ct)
  case Nil
  then show ?case by (simp add: content_lines_def)
next
  case (Cons c cs)
  from Cons.prems have "\<not> is_marker c" by simp
  then have none: "re_match_index (strip c) = None"
    by (simp only: is_marker_def not_not)
  from Cons.prems have rest: "\<forall>c\<in>set cs. \<not> is_marker c" by simp
  show ?case
  proof (cases "strip c = []")
    case True
    with Cons.IH [OF rest] show ?thesis by (simp add: content_lines_def)
  next
    case False
    with none Cons.IH [OF rest, of "ct @ '' '' @ strip c"] show ?thesis
      by (simp add: content_lines_def)
  qed
qed

lemma scan_from_restart:
  assumes "rest = [] \<or> is_marker (hd rest)"
  shows "scan_from ci ct rest
           = (case ci of Some k \<Rightarrow> [(k, strip ct)] | None \<Rightarrow> []) @ scan_from None [] rest"
proof (cases rest)
  case Nil
  then show ?thesis by simp
next
  case (Cons m r)
  with assms obtain g1 g2 where "re_match_index (strip m) = Some (g1, g2)"
    by (auto simp add: is_marker_def)
  then have "scan_from ci ct (m # r)
               = (case ci of Some k \<Rightarrow> [(k, strip ct)] | None \<Rightarrow> [])
                   @ scan_from (Some (int_of_digits g1)) (strip g2) r"
    and "scan_from None [] (m # r) = scan_from (Some (int_of_digits g1)) (strip g2) r"
    by (simp_all add: scan_from_marker del: scan_from.simps)
  with Cons show ?thesis by simp
qed

lemma scan_from_split:
  assumes "rest = [] \<or> is_marker (hd rest)"
  shows "scan_from ci ct (pre @ rest) = scan_from ci ct pre @ scan_from None [] rest"
proof (induction pre arbitrary: ci ct)
  case Nil
  from assms show ?case by (simp add: scan_from_restart [of rest ci ct])
next
  case (Cons raw pre)
  then show ?case by (simp split: option.splits)
qed

lemma concat_spaced: "xs \<noteq> [] \<Longrightarrow> concat (map (\<lambda>c. '' '' @ c) xs) = '' '' @ str_join '' '' xs"
proof (induction xs)
  case Nil
  then show ?case by simp
next
  case (Cons x xs)
  then show ?case by (cases xs) simp_all
qed

lemma hd_str_join: "x \<noteq> [] \<Longrightarrow> hd (str_join sep (x # xs)) = hd x"
  by (cases xs) simp_all

lemma last_str_join:
  "xs \<noteq> [] \<Longrightarrow> last xs \<noteq> [] \<Longrightarrow> last (str_join sep xs) = last (last xs)"
proof (induction xs)
  case Nil
  then show ?case by simp
next
  case (Cons x xs)
  show ?case
  proof (cases xs)
    case Nil
    then show ?thesis by simp
  next
    case (Cons y ys)
    with Cons.prems have ne: "str_join sep xs \<noteq> []"
      by (induction ys arbitrary: y xs) auto
    from Cons Cons.prems Cons.IH have "last (str_join sep xs) = last (last xs)" by simp
    with Cons ne show ?thesis by simp
  qed
qed

lemma content_lines_trimmed:
  "\<forall>l\<in>set (content_lines cs). l \<noteq> [] \<and> \<not> is_space (hd l) \<and> \<not> is_space (last l)"
  by (auto simp add: content_lines_def strip_hd strip_last)

lemma joined_text_strip:
  "strip (strip g2 @ concat (map (\<lambda>c. '' '' @ c) (content_lines cs))) = joined_text g2 cs"
proof (cases "content_lines cs")
  case Nil
  then show ?thesis by (simp add: joined_text_def)
next
  case (Cons x xs)
  let ?xs = "content_lines cs"
  have trimmed: "\<forall>l\<in>set ?xs. l \<noteq> [] \<and> \<not> is_space (hd l) \<and> \<not> is_space (last l)"
    by (rule content_lines_trimmed)
  have ne: "?xs \<noteq> []" using Cons by simp
  have keep: "filter (\<lambda>p. p \<noteq> []) ?xs = ?xs"
    using trimmed by (simp add: filter_id_conv)
  have lastx: "last ?xs \<noteq> [] \<and> \<not> is_space (last (last ?xs))"
    using trimmed last_in_set [OF ne] by blast
  have hdx: "\<not> is_space (hd x)" "x \<noteq> []"
    using trimmed Cons by simp_all
  have last_join: "last (str_join '' '' ?xs) = last (last ?xs)"
    using ne lastx by (simp add: last_str_join)
  have join_ne: "str_join '' '' ?xs \<noteq> []"
    using Cons hdx by (cases xs) simp_all
  have conc: "concat (map (\<lambda>c. '' '' @ c) ?xs) = '' '' @ str_join '' '' ?xs"
    using ne by (rule concat_spaced)
  show ?thesis
  proof (cases "strip g2 = []")
    case True
    have "strip ('' '' @ str_join '' '' ?xs) = strip (str_join '' '' ?xs)"
      by (rule strip_spaces_left) (simp add: is_space_def whitespace_def)
    also have "\<dots> = str_join '' '' ?xs"
    proof (rule strip_id)
      have "hd (str_join '' '' ?xs) = hd x"
        using Cons hdx by (simp add: hd_str_join)
      with hdx last_join lastx
      show "str_join '' '' ?xs = [] \<or> \<not> is_space (hd (str_join '' '' ?xs)) \<and>
              \<not> is_space (last (str_join '' '' ?xs))"
        by simp
    qed
    finally show ?thesis using True conc keep by (simp add: joined_text_def)
  next
    case False
    have shape: "str_join '' '' (strip g2 # ?xs) = strip g2 @ '' '' @ str_join '' '' ?xs"
      using Cons by simp
    have "strip (str_join '' '' (strip g2 # ?xs)) = str_join '' '' (strip g2 # ?xs)"
    proof (rule strip_id)
      have "hd (str_join '' '' (strip g2 # ?xs)) = hd (strip g2)"
        using False by (rule hd_str_join)
      moreover have "last (str_join '' '' (strip g2 # ?xs)) = last (last ?xs)"
        using join_ne last_join by (simp add: shape)
      ultimately show "str_join '' '' (strip g2 # ?xs) = [] \<or>
              \<not> is_space (hd (str_join '' '' (strip g2 # ?xs))) \<and>
              \<not> is_space (last (str_join '' '' (strip g2 # ?xs)))"
        using False lastx strip_hd [of g2] by simp
    qed
    then show ?thesis using False conc keep shape by (simp add: joined_text_def)
  qed
qed

lemma parse_lines_entry:
  assumes m: "re_match_index (strip m) = Some (g1, g2)"
    and cs: "\<forall>c\<in>set cs. \<not> is_marker c"
    and post: "post = [] \<or> is_marker (hd post)"
  shows "parse_lines (pre @ m # cs @ post)
           = parse_lines pre @ (int_of_digits g1, joined_text g2 cs) # parse_lines post"
proof -
  from m have "is_marker (hd (m # cs @ post))" by (simp add: is_marker_def)
  then have "scan_from None [] (pre @ m # cs @ post)
               = scan_from None [] pre @ scan_from None [] (m # cs @ post)"
    by (intro scan_from_split) simp
  also have "scan_from None [] (m # cs @ post)
               = scan_from (Some (int_of_digits g1)) (strip g2) (cs @ post)"
    using m by (simp add: scan_from_marker del: scan_from.simps)
  also have "\<dots> = scan_from (Some (int_of_digits g1))
                      (strip g2 @ concat (map (\<lambda>c. '' '' @ c) (content_lines cs))) post"
    using cs by (rule scan_from_continuations)
  also have "\<dots> = [(int_of_digits g1,
                       strip (strip g2 @ concat (map (\<lambda>c. '' '' @ c) (content_lines cs))))]
                    @ scan_from None [] post"
    using scan_from_restart [OF post, of "Some (int_of_digits g1)"] by simp
  also have "\<dots> = (int_of_digits g1, joined_text g2 cs) # scan_from None [] post"
    unfolding joined_text_strip by simp
  finally show ?thesis by (simp add: parse_lines_scan_from)
qed

lemma parse_lines_junk:
  assumes "\<forall>c\<in>set junk. \<not> is_marker c"
  shows "parse_lines (junk @ rest) = parse_lines rest"
proof -
  have "scan_from None [] (junk @ rest)
          = scan_from None ([] @ concat (map (\<lambda>c. '' '' @ c) (content_lines junk))) rest"
    using assms by (rule scan_from_continuations)
  also have "\<dots> = scan_from None [] rest"
    by (rule scan_from_None_text)
  finally show ?thesis by (simp add: parse_lines_scan_from)
qed

subsection \<open>The lines of a well-formed response\<close>

lemma strip_entry_line:
  "strip (entry_line k t) = ''['' @ str_nat k @ '']'' @ rstrip ('' '' @ t)"
proof -
  have l: "lstrip (entry_line k t) = entry_line k t"
    by (rule lstrip_id) (simp add: entry_line_def is_space_def whitespace_def)
  have a: "rstrip (''['' @ str_nat k @ '']'') = ''['' @ str_nat k @ '']''"
    by (rule rstrip_id) (simp add: is_space_def whitespace_def)
  have "rstrip ((''['' @ str_nat k @ '']'') @ ('' '' @ t))
          = (''['' @ str_nat k @ '']'') @ rstrip ('' '' @ t)"
    using a by (simp only: rstrip_append [of "''['' @ str_nat k @ '']''"] rstrip_eq_Nil [symmetric]
        split: if_splits) simp
  with l show ?thesis by (simp add: strip_def entry_line_def)
qed

lemma re_match_entry_line:
  assumes "LF \<notin> set t"
  shows "re_match_index (strip (entry_line k t)) = Some (str_nat k, rstrip ('' '' @ t))"
proof -
  from assms have "LF \<notin> set ('' '' @ t)" by simp
  with set_rstrip [of "'' '' @ t"] have "LF \<notin> set (rstrip ('' '' @ t))" by blast
  then show ?thesis
    by (simp only: strip_entry_line) (rule re_match_index_marker, simp_all add: str_nat_digits)
qed

lemma is_marker_entry_line: "LF \<notin> set t \<Longrightarrow> is_marker (entry_line k t)"
  by (simp add: is_marker_def re_match_entry_line)

lemma marker_entry_entry_line:
  assumes "LF \<notin> set t"
  shows "marker_entry (entry_line k t) = (k, strip t)"
proof -
  have "strip (rstrip ('' '' @ t)) = strip ('' '' @ t)" by (rule strip_rstrip)
  also have "\<dots> = strip t"
    by (rule strip_spaces_left) (simp add: is_space_def whitespace_def)
  finally show ?thesis
    using assms by (simp add: marker_entry_def re_match_entry_line int_of_digits_str_nat)
qed

subsection \<open>Reassembly\<close>

lemma keep_loop:
  "foldl (keep_entry data) acc ts
     = acc @ map (\<lambda>e. \<lparr>text' = snd e\<rparr>) (filter (in_range (length data)) ts)"
  by (induction ts arbitrary: acc) (auto simp add: keep_entry_def in_range_def)

lemma collect_filter:
  "collect data ts = map (\<lambda>e. \<lparr>text' = snd e\<rparr>) (filter (in_range (length data)) ts)"
  by (simp add: collect_def keep_loop)

lemma pad_loop_indices:
  "\<forall>i\<in>set js. i < length data \<Longrightarrow>
     pad_loop data js out
       = Inr (out @ map (\<lambda>i. \<lparr>text' = placeholder (text' (data ! i))\<rparr>) js)"
  by (induction js arbitrary: out) simp_all

lemma placeholders_nth:
  "map (\<lambda>i. \<lparr>text' = placeholder (text' (data ! i))\<rparr>) [k..<length data]
     = placeholders_from data k"
  by (rule nth_equalityI) (simp_all add: placeholders_from_def)

lemma pad_placeholders: "pad data out = Inr (out @ placeholders_from data (length out))"
proof (cases "length out < length data")
  case True
  have "pad_loop data [length out..<length data] out
          = Inr (out @ map (\<lambda>i. \<lparr>text' = placeholder (text' (data ! i))\<rparr>)
                         [length out..<length data])"
    by (rule pad_loop_indices) simp
  with True show ?thesis
    by (simp add: pad_def placeholders_nth)
next
  case False
  then show ?thesis by (simp add: pad_def placeholders_from_def)
qed

lemma process_entire_json_eq:
  "process_entire_json data r
     = Inr (count_warning data (parse_response r),
            collect data (sort_key fst (parse_response r))
              @ placeholders_from data (length (collect data (sort_key fst (parse_response r)))))"
  by (simp add: process_entire_json_def Let_def pad_placeholders)

subsection \<open>The two variants\<close>

lemma scan_line_st_eq: "scan_line_st = scan_line"
  by (intro ext) (simp add: scan_line_st_def scan_line_def)

lemma scan_finish_st_eq: "scan_finish_st = scan_finish"
  by (intro ext) (simp add: scan_finish_st_def scan_finish_def)

lemma parse_response_st_eq: "parse_response_st r = parse_response r"
  by (simp add: parse_response_st_def parse_response_def parse_lines_def
      scan_line_st_eq scan_finish_st_eq)

lemma collect_st_eq: "collect_st data ts = collect data ts"
proof -
  have "(\<lambda>output_data (idx, trans_text).
            if 1 \<le> idx \<and> idx \<le> length data then output_data @ [\<lparr>text' = trans_text\<rparr>]
            else output_data) = keep_entry data"
    by (intro ext) (simp add: keep_entry_def)
  then show ?thesis by (simp add: collect_st_def collect_def)
qed

lemma pad_loop_st_eq: "pad_loop_st data js out = pad_loop data js out"
  by (induction js arbitrary: out) (simp_all add: placeholder_def)

lemma process_json_eq:
  "process_json data r
     = Inr (collect data (sort_key fst (parse_response r))
              @ placeholders_from data (length (collect data (sort_key fst (parse_response r)))))"
proof -
  have "process_json data r = pad data (collect data (sort_key fst (parse_response r)))"
    by (simp add: process_json_def Let_def parse_response_st_eq collect_st_eq pad_loop_st_eq
        pad_def)
  then show ?thesis by (simp add: pad_placeholders)
qed

subsection \<open>Well-formed responses\<close>

lemma str_nat_no_LF: "LF \<notin> set (str_nat k)"
proof
  assume "LF \<in> set (str_nat k)"
  with str_nat_digits [of k] have "is_digit LF" by blast
  then show False by (simp add: is_digit_def)
qed

lemma entry_line_no_LF: "LF \<notin> set t \<Longrightarrow> LF \<notin> set (entry_line k t)"
  using str_nat_no_LF [of k] by (simp add: entry_line_def)

lemma in_numbered:
  assumes "l \<in> set (numbered ts)"
  shows "\<exists>k t. l = entry_line k t \<and> t \<in> set ts"
proof -
  from assms obtain p where p: "p \<in> set (enumerate 0 ts)" "l = entry_line (fst p + 1) (snd p)"
    by (auto simp add: numbered_def)
  from p(1) have "snd p \<in> snd ` set (enumerate 0 ts)" by (rule imageI)
  then have "snd p \<in> set (map snd (enumerate 0 ts))" by (simp only: set_map)
  then have "snd p \<in> set ts" by (simp only: map_snd_enumerate)
  with p(2) show ?thesis by blast
qed

lemma numbered_no_LF:
  assumes "\<forall>t\<in>set ts. LF \<notin> set t"
  shows "\<forall>l\<in>set (numbered ts). is_marker l \<and> LF \<notin> set l"
proof
  fix l assume "l \<in> set (numbered ts)"
  then obtain k t where "l = entry_line k t" "t \<in> set ts"
    using in_numbered by blast
  with assms show "is_marker l \<and> LF \<notin> set l"
    by (simp add: is_marker_entry_line entry_line_no_LF)
qed

lemma entries_numbered:
  assumes "\<forall>t\<in>set ts. LF \<notin> set t"
  shows "map marker_entry (numbered ts) = map (\<lambda>(i, t). (i + 1, strip t)) (enumerate 0 ts)"
proof -
  have "\<forall>p\<in>set (enumerate 0 ts). LF \<notin> set (snd p)"
    using assms by (auto simp add: in_set_enumerate_eq)
  then show ?thesis
    by (auto simp add: numbered_def marker_entry_entry_line)
qed

lemma parse_markers:
  assumes "\<forall>l\<in>set ls. is_marker l \<and> LF \<notin> set l"
  shows "parse_response (str_join [LF] ls) = map marker_entry ls"
proof -
  from assms have "parse_response (str_join [LF] ls) = parse_lines ls"
    by (intro parse_response_join) simp
  also from assms have "\<dots> = map marker_entry ls"
    by (simp add: parse_lines_scan_from scan_from_markers)
  finally show ?thesis .
qed

lemma fst_entries:
  "map fst (map (\<lambda>(i, t). (i + 1, strip t)) (enumerate 0 ts)) = [Suc 0..<Suc (length ts)]"
  by (rule nth_equalityI) (simp_all add: nth_enumerate_eq del: upt_Suc)

lemma snd_entries: "map snd (map (\<lambda>(i, t). (i + 1, strip t)) (enumerate 0 ts)) = map strip ts"
  by (rule nth_equalityI) (simp_all add: nth_enumerate_eq)

lemma collect_entries:
  assumes "length data = length ts"
  shows "collect data (map (\<lambda>(i, t). (i + 1, strip t)) (enumerate 0 ts))
           = map (\<lambda>t. \<lparr>text' = strip t\<rparr>) ts"
proof -
  have "\<forall>e\<in>set (map (\<lambda>(i, t). (i + 1, strip t)) (enumerate 0 ts)). in_range (length data) e"
    using assms by (auto simp add: in_range_def in_set_enumerate_eq)
  then have "filter (in_range (length data)) (map (\<lambda>(i, t). (i + 1, strip t)) (enumerate 0 ts))
               = map (\<lambda>(i, t). (i + 1, strip t)) (enumerate 0 ts)"
    by (simp only: filter_True)
  then have "collect data (map (\<lambda>(i, t). (i + 1, strip t)) (enumerate 0 ts))
               = map (\<lambda>s. \<lparr>text' = s\<rparr>) (map snd (map (\<lambda>(i, t). (i + 1, strip t)) (enumerate 0 ts)))"
    by (simp add: collect_filter)
  then show ?thesis by (simp only: snd_entries) simp
qed

lemma sort_entries:
  assumes "mset es = mset (map (\<lambda>(i, t). (i + 1, strip t)) (enumerate 0 ts))"
  shows "sort_key fst es = map (\<lambda>(i, t). (i + 1, strip t)) (enumerate 0 ts)"
proof (rule sort_key_inj_key_eq [OF assms])
  have "distinct (map fst (map (\<lambda>(i, t). (i + 1, strip t)) (enumerate 0 ts)))"
    by (simp only: fst_entries distinct_upt)
  then have "inj_on fst (set (map (\<lambda>(i, t). (i + 1, strip t)) (enumerate 0 ts)))"
    by (simp only: distinct_map)
  moreover have "set es = set (map (\<lambda>(i, t). (i + 1, strip t)) (enumerate 0 ts))"
    using assms by (rule mset_eq_setD)
  ultimately show "inj_on fst (set es)" by simp
  show "sorted (map fst (map (\<lambda>(i, t). (i + 1, strip t)) (enumerate 0 ts)))"
    by (simp only: fst_entries sorted_upt)
qed

subsection \<open>Further lemmas for the properties\<close>

lemma length_filter_sort:
  "length (filter P (sort_key f xs)) = length (filter P xs)"
proof -
  have "mset (filter P (sort_key f xs)) = mset (filter P xs)" by simp
  then show ?thesis by (rule mset_eq_length)
qed

lemma parse_unmarked:
  assumes "\<forall>l\<in>set (split_nl r). \<not> is_marker l"
  shows "parse_response r = []"
proof -
  have "parse_lines (split_nl r @ []) = parse_lines []"
    using assms by (rule parse_lines_junk)
  then show ?thesis
    by (simp add: parse_response_lines parse_lines_scan_from)
qed

lemma parse_numbered:
  assumes "\<forall>t\<in>set ts. LF \<notin> set t"
  shows "parse_response (str_join [LF] (numbered ts))
           = map (\<lambda>(i, t). (i + 1, strip t)) (enumerate 0 ts)"
proof -
  from assms have "\<forall>l\<in>set (numbered ts). is_marker l \<and> LF \<notin> set l"
    by (rule numbered_no_LF)
  then have "parse_response (str_join [LF] (numbered ts)) = map marker_entry (numbered ts)"
    by (rule parse_markers)
  with assms show ?thesis by (simp only: entries_numbered)
qed

lemma entries_output:
  assumes "length data = length ts"
    and "sort_key fst es = map (\<lambda>(i, t). (i + 1, strip t)) (enumerate 0 ts)"
  shows "collect data (sort_key fst es)
           @ placeholders_from data (length (collect data (sort_key fst es)))
         = map (\<lambda>t. \<lparr>text' = strip t\<rparr>) ts"
proof -
  from assms have "collect data (sort_key fst es) = map (\<lambda>t. \<lparr>text' = strip t\<rparr>) ts"
    by (simp only: collect_entries)
  with assms(1) show ?thesis by (simp add: placeholders_from_def)
qed

lemma texts_with_indices_numbered: "texts_with_indices data = numbered (map text' data)"
  by (simp add: texts_with_indices_def numbered_def entry_line_def)

lemma texts_with_indices_st_numbered: "texts_with_indices_st data = numbered (map text' data)"
  by (simp add: texts_with_indices_st_def numbered_def entry_line_def)

lemma length_numbered: "length (numbered ts) = length ts"
  by (simp add: numbered_def)

lemma nth_numbered: "i < length ts \<Longrightarrow> numbered ts ! i = entry_line (i + 1) (ts ! i)"
  by (simp add: numbered_def nth_enumerate_eq)

lemma str_join_Cons:
  "str_join sep (x # xs) = x @ (if xs = [] then [] else sep @ str_join sep xs)"
  by (cases xs) simp_all

lemma str_join_nth:
  "i < length xs \<Longrightarrow> \<exists>ps ss. str_join sep xs = ps @ xs ! i @ ss"
proof (induction xs arbitrary: i)
  case Nil
  then show ?case by simp
next
  case (Cons x xs)
  show ?case
  proof (cases i)
    case 0
    have "str_join sep (x # xs) = [] @ x @ (if xs = [] then [] else sep @ str_join sep xs)"
      by (simp only: str_join_Cons append_Nil)
    with 0 show ?thesis by (metis nth_Cons_0)
  next
    case (Suc j)
    with Cons.prems have j: "j < length xs" by simp
    then obtain ps ss where "str_join sep xs = ps @ xs ! j @ ss"
      using Cons.IH by blast
    moreover from j have "xs \<noteq> []" by auto
    ultimately have "str_join sep (x # xs) = (x @ sep @ ps) @ xs ! j @ ss"
      by (simp add: str_join_Cons)
    with Suc show ?thesis by (metis nth_Cons_Suc)
  qed
qed

lemma str_join_nth_pair:
  "Suc i < length xs \<Longrightarrow> \<exists>ps ss. str_join sep xs = ps @ (xs ! i @ sep @ xs ! Suc i) @ ss"
proof (induction xs arbitrary: i)
  case Nil
  then show ?case by simp
next
  case (Cons x xs)
  show ?case
  proof (cases i)
    case 0
    with Cons.prems obtain y ys where xs: "xs = y # ys" by (cases xs) auto
    have "str_join sep (x # xs)
            = [] @ (x @ sep @ y) @ (if ys = [] then [] else sep @ str_join sep ys)"
      by (simp add: xs str_join_Cons)
    with 0 xs show ?thesis by (metis nth_Cons_0 nth_Cons_Suc)
  next
    case (Suc j)
    with Cons.prems have j: "Suc j < length xs" by simp
    then obtain ps ss where "str_join sep xs = ps @ (xs ! j @ sep @ xs ! Suc j) @ ss"
      using Cons.IH by blast
    moreover from j have "xs \<noteq> []" by auto
    ultimately have "str_join sep (x # xs) = (x @ sep @ ps) @ (xs ! j @ sep @ xs ! Suc j) @ ss"
      by (simp add: str_join_Cons)
    with Suc show ?thesis by (metis nth_Cons_Suc)
  qed
qed

lemma sublist_framed: "\<exists>ps ss. body = ps @ x @ ss \<Longrightarrow> sublist x (h @ body @ t)"
proof -
  assume "\<exists>ps ss. body = ps @ x @ ss"
  then obtain ps ss where "body = ps @ x @ ss" by blast
  then have "h @ body @ t = (h @ ps) @ x @ (ss @ t)" by simp
  then show ?thesis unfolding sublist_def by blast
qed

lemma item_in_join:
  assumes "i < length data"
  shows "\<exists>ps ss. str_join sep (numbered (map text' data))
                    = ps @ entry_line (i + 1) (text' (data ! i)) @ ss"
proof -
  from assms have "i < length (numbered (map text' data))" by (simp add: length_numbered)
  then have "\<exists>ps ss. str_join sep (numbered (map text' data))
                        = ps @ numbered (map text' data) ! i @ ss"
    by (rule str_join_nth)
  with assms show ?thesis by (simp add: nth_numbered)
qed

lemma item_pair_in_join:
  assumes "Suc i < length data"
  shows "\<exists>ps ss. str_join sep (numbered (map text' data))
                    = ps @ (entry_line (i + 1) (text' (data ! i)) @ sep
                              @ entry_line (i + 2) (text' (data ! Suc i))) @ ss"
proof -
  from assms have "Suc i < length (numbered (map text' data))" by (simp add: length_numbered)
  then have "\<exists>ps ss. str_join sep (numbered (map text' data))
                        = ps @ (numbered (map text' data) ! i @ sep
                                  @ numbered (map text' data) ! Suc i) @ ss"
    by (rule str_join_nth_pair)
  with assms show ?thesis by (simp add: nth_numbered)
qed

subsection \<open>The loops with the error of int\<close>

lemma scan_line_raising_eq:
  "scan_line_raising st raw
     = (if marker_accepted raw then Inr (scan_line st raw) else Inl ValueError)"
  by (simp add: scan_line_raising_def scan_line_def marker_accepted_def py_int_def Let_def
      re_match_index_def split: option.splits)

lemma scan_loop_raising_eq:
  "scan_loop_raising st ls
     = (if list_all marker_accepted ls then Inr (foldl scan_line st ls) else Inl ValueError)"
  by (induction ls arbitrary: st) (simp_all add: scan_line_raising_eq)

lemma process_entire_json_raising_eq:
  "process_entire_json_raising data r
     = (if markers_accepted r then process_entire_json data r else Inl ValueError)"
  by (simp add: process_entire_json_raising_def process_entire_json_def scan_loop_raising_eq
      markers_accepted_def parse_response_def parse_lines_def)

lemma scan_line_st_raising_eq:
  "scan_line_st_raising st raw
     = (if marker_accepted raw then Inr (scan_line_st st raw) else Inl ValueError)"
  by (simp add: scan_line_st_raising_def scan_line_st_def marker_accepted_def py_int_def Let_def
      re_match_index_def split: option.splits)

lemma scan_loop_st_raising_eq:
  "scan_loop_st_raising st ls
     = (if list_all marker_accepted ls then Inr (foldl scan_line_st st ls) else Inl ValueError)"
  by (induction ls arbitrary: st) (simp_all add: scan_line_st_raising_eq)

lemma process_json_raising_eq:
  "process_json_raising data r
     = (if markers_accepted r then process_json data r else Inl ValueError)"
  by (simp add: process_json_raising_def process_json_def scan_loop_st_raising_eq
      markers_accepted_def parse_response_st_def)

lemma output_length_value:
  "\<exists>warnings output_data.
     process_entire_json data r = Inr (warnings, output_data)
     \<and> process_json data r = Inr output_data
     \<and> length output_data
         = max (length data) (length (filter (in_range (length data)) (parse_response r)))"
  by (simp add: process_entire_json_eq process_json_eq collect_filter placeholders_from_def
      length_filter_sort)

lemma count_mismatch_value:
  "\<exists>output_data.
     process_entire_json data r
       = Inr (if length (parse_response r) \<noteq> length data
              then [''Warning: Expected '' @ str_nat (length data) @ '' translations but got ''
                      @ str_nat (length (parse_response r)) @ ''.'']
              else [],
              output_data)
     \<and> length output_data
         = max (length data) (length (filter (in_range (length data)) (parse_response r)))"
  by (simp add: process_entire_json_eq count_warning_def collect_filter placeholders_from_def
      length_filter_sort)

lemma long_marker_not_accepted:
  "\<not> markers_accepted (''['' @ replicate 4301 CHR ''1'' @ ''] a'')"
proof -
  let ?ds = "replicate 4301 CHR ''1''"
  let ?s = "''['' @ ?ds @ '']'' @ '' a''"
  have digits: "\<forall>c\<in>set ?ds. is_digit c"
    by (simp add: is_digit_def)
  have ne: "?ds \<noteq> []" by simp
  have m: "re_match_index ?s = Some (?ds, '' a'')"
    using ne digits by (rule re_match_index_marker) simp
  have "hd ?s = CHR ''[''" and "last ?s = CHR ''a''" by simp_all
  then have "strip ?s = ?s"
    by (intro strip_id) (simp add: is_space_def whitespace_def)
  moreover have "LF \<notin> set ?s" by simp
  then have "split_nl ?s = [?s]" by (rule split_nl_no_LF)
  ultimately have "markers_accepted ?s = marker_accepted ?s"
    by (simp add: markers_accepted_def)
  also have "\<dots> = (length ?ds \<le> max_str_digits)"
    using m \<open>strip ?s = ?s\<close> by (simp add: marker_accepted_def)
  also have "\<dots> = False"
    by (simp add: max_str_digits_def)
  finally show ?thesis by simp
qed

lemma long_marker_raises:
  "process_entire_json_raising data (''['' @ replicate 4301 CHR ''1'' @ ''] a'') = Inl ValueError
   \<and> process_json_raising data (''['' @ replicate 4301 CHR ''1'' @ ''] a'') = Inl ValueError"
  using long_marker_not_accepted
  by (simp only: process_entire_json_raising_eq process_json_raising_eq if_False simp_thms)

section \<open>The properties\<close>

text \<open>
  Claim C1, as the code has it. The claim reads: for every response the reassembled
  list has the length \<open>N\<close> of the input. Two things stand against it. The padding fills up
  to \<open>N\<close> and nothing cuts down to \<open>N\<close>; and \<^verbatim>\<open>int\<close> raises on a marker of more than 4300
  digits. So, for every input and every response: when some marker line has more than
  4300 digits, both variants raise ValueError and return no list; otherwise both return
  a list of length \<open>max N k\<close>, with \<open>k\<close> the number of parsed entries whose ordinal lies
  in \<open>1..N\<close>, so never a shorter list than the input, and one of length \<open>N\<close> whenever
  \<open>k\<close> is at most \<open>N\<close>.
\<close>

theorem output_length_max:
  "if markers_accepted r
   then \<exists>warnings output_data.
          process_entire_json_raising data r = Inr (warnings, output_data)
          \<and> process_json_raising data r = Inr output_data
          \<and> length output_data
              = max (length data) (length (filter (in_range (length data)) (parse_response r)))
   else process_entire_json_raising data r = Inl ValueError
        \<and> process_json_raising data r = Inl ValueError"
  using output_length_value [of data r]
  by (simp add: process_entire_json_raising_eq process_json_raising_eq)

text \<open>
  An instance: two items, a response with one ordinal in range and one out of range.
\<close>

theorem output_length_max_witness:
  "\<exists>warnings output_data.
     process_entire_json_raising [\<lparr>text' = ''x''\<rparr>, \<lparr>text' = ''y''\<rparr>]
         (''[2] a'' @ [LF] @ ''[7] b'') = Inr (warnings, output_data)
     \<and> process_json_raising [\<lparr>text' = ''x''\<rparr>, \<lparr>text' = ''y''\<rparr>]
         (''[2] a'' @ [LF] @ ''[7] b'') = Inr output_data
     \<and> length output_data = 2"
proof -
  have a: "markers_accepted (''[2] a'' @ [LF] @ ''[7] b'')"
    by code_simp
  have e: "max (length [\<lparr>text' = ''x''\<rparr>, \<lparr>text' = ''y''\<rparr>])
             (length (filter (in_range (length [\<lparr>text' = ''x''\<rparr>, \<lparr>text' = ''y''\<rparr>]))
                        (parse_response (''[2] a'' @ [LF] @ ''[7] b'')))) = 2"
    by code_simp
  show ?thesis
    using output_length_max [of "''[2] a'' @ [LF] @ ''[7] b''"
        "[\<lparr>text' = ''x''\<rparr>, \<lparr>text' = ''y''\<rparr>]"]
    unfolding e using a by simp
qed

text \<open>
  Claim C1 as stated fails: for one input item and a response that gives the ordinal 1
  twice, the list returned has two items.
\<close>

theorem duplicate_ordinals_lengthen_output:
  "process_entire_json [\<lparr>text' = ''x''\<rparr>] (''[1] a'' @ [LF] @ ''[1] b'')
     = Inr ([''Warning: Expected 1 translations but got 2.''],
            [\<lparr>text' = ''a''\<rparr>, \<lparr>text' = ''b''\<rparr>])
   \<and> process_entire_json_raising [\<lparr>text' = ''x''\<rparr>] (''[1] a'' @ [LF] @ ''[1] b'')
     = Inr ([''Warning: Expected 1 translations but got 2.''],
            [\<lparr>text' = ''a''\<rparr>, \<lparr>text' = ''b''\<rparr>])
   \<and> process_json_raising [\<lparr>text' = ''x''\<rparr>] (''[1] a'' @ [LF] @ ''[1] b'')
     = Inr [\<lparr>text' = ''a''\<rparr>, \<lparr>text' = ''b''\<rparr>]"
  by code_simp

text \<open>
  Claim C2: when the response is the lines \<^verbatim>\<open>[1] t1\<close> to \<^verbatim>\<open>[N] tN\<close> in ascending order,
  each text on one line, and the input has \<open>N\<close> items, then both variants return the
  \<open>N\<close> trimmed texts in order, and the batch variant prints no warning.
\<close>

theorem well_formed_response_parsed:
  assumes "\<forall>t\<in>set ts. LF \<notin> set t" and "length data = length ts"
  shows "process_entire_json data (str_join [LF] (numbered ts))
           = Inr ([], map (\<lambda>t. \<lparr>text' = strip t\<rparr>) ts)
         \<and> process_json data (str_join [LF] (numbered ts))
           = Inr (map (\<lambda>t. \<lparr>text' = strip t\<rparr>) ts)"
proof -
  let ?es = "map (\<lambda>(i, t). (i + 1, strip t)) (enumerate 0 ts)"
  have p: "parse_response (str_join [LF] (numbered ts)) = ?es"
    using assms(1) by (rule parse_numbered)
  have "sort_key fst ?es = ?es"
    by (rule sort_entries) simp
  then have out: "collect data (sort_key fst ?es)
           @ placeholders_from data (length (collect data (sort_key fst ?es)))
         = map (\<lambda>t. \<lparr>text' = strip t\<rparr>) ts"
    using assms(2) by (intro entries_output)
  have w: "count_warning data ?es = []"
    using assms(2) by (simp add: count_warning_def)
  show ?thesis
    by (simp only: process_entire_json_eq process_json_eq p out w)
qed

text \<open>The round trip of two items.\<close>

theorem well_formed_response_parsed_witness:
  "process_entire_json [\<lparr>text' = ''Hello''\<rparr>, \<lparr>text' = ''World''\<rparr>]
       (''[1] Namaste'' @ [LF] @ ''[2] Duniya'')
     = Inr ([], [\<lparr>text' = ''Namaste''\<rparr>, \<lparr>text' = ''Duniya''\<rparr>])
   \<and> process_json [\<lparr>text' = ''Hello''\<rparr>, \<lparr>text' = ''World''\<rparr>]
       (''[1] Namaste'' @ [LF] @ ''[2] Duniya'')
     = Inr [\<lparr>text' = ''Namaste''\<rparr>, \<lparr>text' = ''Duniya''\<rparr>]"
proof -
  have h1: "\<forall>t\<in>set [''Namaste'', ''Duniya'']. LF \<notin> set t" by simp
  have h2: "length [\<lparr>text' = ''Hello''\<rparr>, \<lparr>text' = ''World''\<rparr>] = length [''Namaste'', ''Duniya'']"
    by simp
  have r: "str_join [LF] (numbered [''Namaste'', ''Duniya'']) = ''[1] Namaste'' @ [LF] @ ''[2] Duniya''"
    by code_simp
  have out: "map (\<lambda>t. \<lparr>text' = strip t\<rparr>) [''Namaste'', ''Duniya'']
               = [\<lparr>text' = ''Namaste''\<rparr>, \<lparr>text' = ''Duniya''\<rparr>]"
    by code_simp
  show ?thesis
    using well_formed_response_parsed [OF h1 h2] unfolding r out .
qed

text \<open>
  Claim C3: when the lines of the response are a permutation of the lines
  \<^verbatim>\<open>[1] t1\<close> to \<^verbatim>\<open>[N] tN\<close>, the output is the output for the ascending order: position
  \<open>i\<close> carries the trimmed \<open>ti\<close> whatever the order of the lines.
\<close>

theorem permuted_response_same_output:
  assumes "mset ls = mset (numbered ts)"
    and "\<forall>t\<in>set ts. LF \<notin> set t" and "length data = length ts"
  shows "process_entire_json data (str_join [LF] ls)
           = process_entire_json data (str_join [LF] (numbered ts))
         \<and> process_entire_json data (str_join [LF] ls)
           = Inr ([], map (\<lambda>t. \<lparr>text' = strip t\<rparr>) ts)
         \<and> process_json data (str_join [LF] ls)
           = Inr (map (\<lambda>t. \<lparr>text' = strip t\<rparr>) ts)"
proof -
  let ?es = "map (\<lambda>(i, t). (i + 1, strip t)) (enumerate 0 ts)"
  have ordered: "parse_response (str_join [LF] (numbered ts)) = ?es"
    using assms(2) by (rule parse_numbered)
  have "set ls = set (numbered ts)"
    using assms(1) by (rule mset_eq_setD)
  with numbered_no_LF [OF assms(2)] have "\<forall>l\<in>set ls. is_marker l \<and> LF \<notin> set l"
    by simp
  then have p: "parse_response (str_join [LF] ls) = map marker_entry ls"
    by (rule parse_markers)
  have "mset (map marker_entry ls) = mset (map marker_entry (numbered ts))"
    using assms(1) by (simp only: mset_map)
  then have m: "mset (map marker_entry ls) = mset ?es"
    using assms(2) by (simp only: entries_numbered)
  then have s: "sort_key fst (map marker_entry ls) = ?es"
    by (rule sort_entries)
  have s': "sort_key fst ?es = ?es"
    by (rule sort_entries) simp
  have len: "length (map marker_entry ls) = length ts"
    using m mset_eq_length [of "map marker_entry ls" ?es] by simp
  have out: "collect data (sort_key fst (map marker_entry ls))
           @ placeholders_from data (length (collect data (sort_key fst (map marker_entry ls))))
         = map (\<lambda>t. \<lparr>text' = strip t\<rparr>) ts"
    using assms(3) s by (rule entries_output)
  have out': "collect data (sort_key fst ?es)
           @ placeholders_from data (length (collect data (sort_key fst ?es)))
         = map (\<lambda>t. \<lparr>text' = strip t\<rparr>) ts"
    using assms(3) s' by (rule entries_output)
  have w: "count_warning data (map marker_entry ls) = []"
    using assms(3) len by (simp add: count_warning_def)
  have w': "count_warning data ?es = []"
    using assms(3) by (simp add: count_warning_def)
  show ?thesis
    by (simp only: process_entire_json_eq process_json_eq p ordered out out' w w')
qed

text \<open>The two entries of the round trip, swapped.\<close>

theorem permuted_response_same_output_witness:
  "process_entire_json [\<lparr>text' = ''Hello''\<rparr>, \<lparr>text' = ''World''\<rparr>]
       (''[2] Duniya'' @ [LF] @ ''[1] Namaste'')
     = process_entire_json [\<lparr>text' = ''Hello''\<rparr>, \<lparr>text' = ''World''\<rparr>]
         (''[1] Namaste'' @ [LF] @ ''[2] Duniya'')
   \<and> process_entire_json [\<lparr>text' = ''Hello''\<rparr>, \<lparr>text' = ''World''\<rparr>]
       (''[2] Duniya'' @ [LF] @ ''[1] Namaste'')
     = Inr ([], [\<lparr>text' = ''Namaste''\<rparr>, \<lparr>text' = ''Duniya''\<rparr>])
   \<and> process_json [\<lparr>text' = ''Hello''\<rparr>, \<lparr>text' = ''World''\<rparr>]
       (''[2] Duniya'' @ [LF] @ ''[1] Namaste'')
     = Inr [\<lparr>text' = ''Namaste''\<rparr>, \<lparr>text' = ''Duniya''\<rparr>]"
proof -
  have n: "numbered [''Namaste'', ''Duniya''] = [''[1] Namaste'', ''[2] Duniya'']"
    by code_simp
  have h0: "mset [''[2] Duniya'', ''[1] Namaste''] = mset (numbered [''Namaste'', ''Duniya''])"
    unfolding n by simp
  have h1: "\<forall>t\<in>set [''Namaste'', ''Duniya'']. LF \<notin> set t" by simp
  have h2: "length [\<lparr>text' = ''Hello''\<rparr>, \<lparr>text' = ''World''\<rparr>] = length [''Namaste'', ''Duniya'']"
    by simp
  have r: "str_join [LF] (numbered [''Namaste'', ''Duniya'']) = ''[1] Namaste'' @ [LF] @ ''[2] Duniya''"
    by code_simp
  have r': "str_join [LF] [''[2] Duniya'', ''[1] Namaste''] = ''[2] Duniya'' @ [LF] @ ''[1] Namaste''"
    by code_simp
  have out: "map (\<lambda>t. \<lparr>text' = strip t\<rparr>) [''Namaste'', ''Duniya'']
               = [\<lparr>text' = ''Namaste''\<rparr>, \<lparr>text' = ''Duniya''\<rparr>]"
    by code_simp
  show ?thesis
    using permuted_response_same_output [OF h0 h1 h2] unfolding r r' out .
qed

text \<open>
  Claim C4 at its own input: three items and a response with the entries 1 and 3
  only. The claim expects the text of entry 3 at position 3 and a placeholder for the
  second input at position 2. The code appends the kept texts in order and pads at the
  tail: the text of entry 3 stands at position 2, and position 3 holds a placeholder
  that names the third input, whose translation was given.
\<close>

theorem gap_filled_at_tail:
  "process_entire_json [\<lparr>text' = ''A''\<rparr>, \<lparr>text' = ''B''\<rparr>, \<lparr>text' = ''C''\<rparr>]
       (''[1] x'' @ [LF] @ ''[3] z'')
     = Inr ([''Warning: Expected 3 translations but got 2.''],
            [\<lparr>text' = ''x''\<rparr>, \<lparr>text' = ''z''\<rparr>, \<lparr>text' = ''[Translation missing for: C]''\<rparr>])
   \<and> process_json [\<lparr>text' = ''A''\<rparr>, \<lparr>text' = ''B''\<rparr>, \<lparr>text' = ''C''\<rparr>]
       (''[1] x'' @ [LF] @ ''[3] z'')
     = Inr [\<lparr>text' = ''x''\<rparr>, \<lparr>text' = ''z''\<rparr>, \<lparr>text' = ''[Translation missing for: C]''\<rparr>]"
  by code_simp

text \<open>
  Claim C5: when no line of the response is a marker line (the empty response, prose,
  brackets inside a line), both variants return without an error the list that holds,
  at every position, the placeholder built from the input text of that position. The
  batch variant prints its warning exactly when the input is not empty.
\<close>

theorem unmarked_response_all_placeholders:
  assumes "\<forall>l\<in>set (split_nl r). \<not> is_marker l"
  shows "process_entire_json data r
           = Inr (count_warning data [], map (\<lambda>d. \<lparr>text' = placeholder (text' d)\<rparr>) data)
         \<and> process_json data r = Inr (map (\<lambda>d. \<lparr>text' = placeholder (text' d)\<rparr>) data)"
proof -
  from assms have "parse_response r = []" by (rule parse_unmarked)
  then show ?thesis
    by (simp add: process_entire_json_eq process_json_eq collect_def placeholders_from_def)
qed

text \<open>Two items and two lines of prose.\<close>

theorem unmarked_response_all_placeholders_witness:
  "process_entire_json [\<lparr>text' = ''Hello''\<rparr>, \<lparr>text' = ''World''\<rparr>]
       (''Sorry, I cannot'' @ [LF] @ ''translate [this].'')
     = Inr ([''Warning: Expected 2 translations but got 0.''],
            [\<lparr>text' = ''[Translation missing for: Hello]''\<rparr>,
             \<lparr>text' = ''[Translation missing for: World]''\<rparr>])
   \<and> process_json [\<lparr>text' = ''Hello''\<rparr>, \<lparr>text' = ''World''\<rparr>]
       (''Sorry, I cannot'' @ [LF] @ ''translate [this].'')
     = Inr [\<lparr>text' = ''[Translation missing for: Hello]''\<rparr>,
            \<lparr>text' = ''[Translation missing for: World]''\<rparr>]"
proof -
  have h: "\<forall>l\<in>set (split_nl (''Sorry, I cannot'' @ [LF] @ ''translate [this].'')). \<not> is_marker l"
    by code_simp
  have w: "count_warning [\<lparr>text' = ''Hello''\<rparr>, \<lparr>text' = ''World''\<rparr>] []
             = [''Warning: Expected 2 translations but got 0.'']"
    by code_simp
  have out: "map (\<lambda>d. \<lparr>text' = placeholder (text' d)\<rparr>) [\<lparr>text' = ''Hello''\<rparr>, \<lparr>text' = ''World''\<rparr>]
               = [\<lparr>text' = ''[Translation missing for: Hello]''\<rparr>,
                  \<lparr>text' = ''[Translation missing for: World]''\<rparr>]"
    by code_simp
  show ?thesis
    using unmarked_response_all_placeholders [OF h, of "[\<lparr>text' = ''Hello''\<rparr>, \<lparr>text' = ''World''\<rparr>]"]
    unfolding w out .
qed

text \<open>
  Claim C6: a marker line \<open>m\<close> followed by the lines \<open>cs\<close>, none of them a marker line,
  up to the next marker line or the end of the response, gives one entry: its ordinal is
  the number of the marker, and its text is the remainder of the marker line and the
  lines \<open>cs\<close>, each trimmed, the empty ones left out, joined by single spaces. Lines
  before the first marker line that are not marker lines change neither the parsed
  entries nor the output of either variant.
\<close>

theorem continuation_lines_joined:
  assumes "\<forall>l\<in>set (junk @ pre @ m # cs @ post). LF \<notin> set l"
    and "re_match_index (strip m) = Some (g1, g2)"
    and "\<forall>c\<in>set cs. \<not> is_marker c"
    and "post = [] \<or> is_marker (hd post)"
    and "\<forall>c\<in>set junk. \<not> is_marker c"
  shows "parse_response (str_join [LF] (pre @ m # cs @ post))
           = parse_response (str_join [LF] pre)
               @ (int_of_digits g1, joined_text g2 cs) # parse_response (str_join [LF] post)
         \<and> parse_response (str_join [LF] (junk @ pre @ m # cs @ post))
           = parse_response (str_join [LF] (pre @ m # cs @ post))
         \<and> process_entire_json data (str_join [LF] (junk @ pre @ m # cs @ post))
           = process_entire_json data (str_join [LF] (pre @ m # cs @ post))
         \<and> process_json data (str_join [LF] (junk @ pre @ m # cs @ post))
           = process_json data (str_join [LF] (pre @ m # cs @ post))"
proof -
  from assms(1) have a: "\<forall>l\<in>set (pre @ m # cs @ post). LF \<notin> set l"
    and b: "\<forall>l\<in>set pre. LF \<notin> set l" and c: "\<forall>l\<in>set post. LF \<notin> set l"
    by simp_all
  have entry: "parse_lines (pre @ m # cs @ post)
          = parse_lines pre @ (int_of_digits g1, joined_text g2 cs) # parse_lines post"
    using assms(2-4) by (rule parse_lines_entry)
  have dropped: "parse_lines (junk @ pre @ m # cs @ post) = parse_lines (pre @ m # cs @ post)"
    using assms(5) by (rule parse_lines_junk)
  have same: "parse_response (str_join [LF] (junk @ pre @ m # cs @ post))
                = parse_response (str_join [LF] (pre @ m # cs @ post))"
    using dropped by (simp only: parse_response_join [OF a] parse_response_join [OF assms(1)])
  have "parse_response (str_join [LF] (pre @ m # cs @ post))
          = parse_response (str_join [LF] pre)
              @ (int_of_digits g1, joined_text g2 cs) # parse_response (str_join [LF] post)"
    using entry
    by (simp only: parse_response_join [OF a] parse_response_join [OF b]
        parse_response_join [OF c])
  with same show ?thesis
    by (simp only: process_entire_json_eq process_json_eq simp_thms)
qed

text \<open>
  An entry over three lines, one of them blank, after a line of prose.
\<close>

theorem continuation_lines_joined_witness:
  "parse_response (str_join [LF]
       ([''[1] Namaste''] @ ''[2] Kal'' # [''  subah milte'', '''', ''hain  ''] @ [''[3] Theek'']))
     = parse_response (str_join [LF] [''[1] Namaste''])
         @ (2, ''Kal subah milte hain'') # parse_response (str_join [LF] [''[3] Theek''])
   \<and> parse_response (str_join [LF]
       ([''Here you go:''] @ [''[1] Namaste''] @ ''[2] Kal''
          # [''  subah milte'', '''', ''hain  ''] @ [''[3] Theek'']))
     = parse_response (str_join [LF]
       ([''[1] Namaste''] @ ''[2] Kal'' # [''  subah milte'', '''', ''hain  ''] @ [''[3] Theek'']))
   \<and> process_json [\<lparr>text' = ''a''\<rparr>, \<lparr>text' = ''b''\<rparr>, \<lparr>text' = ''c''\<rparr>]
       (str_join [LF] ([''Here you go:''] @ [''[1] Namaste''] @ ''[2] Kal''
          # [''  subah milte'', '''', ''hain  ''] @ [''[3] Theek'']))
     = Inr [\<lparr>text' = ''Namaste''\<rparr>, \<lparr>text' = ''Kal subah milte hain''\<rparr>, \<lparr>text' = ''Theek''\<rparr>]"
proof -
  have o: "process_json [\<lparr>text' = ''a''\<rparr>, \<lparr>text' = ''b''\<rparr>, \<lparr>text' = ''c''\<rparr>]
       (str_join [LF] ([''[1] Namaste''] @ ''[2] Kal''
          # [''  subah milte'', '''', ''hain  ''] @ [''[3] Theek'']))
     = Inr [\<lparr>text' = ''Namaste''\<rparr>, \<lparr>text' = ''Kal subah milte hain''\<rparr>, \<lparr>text' = ''Theek''\<rparr>]"
    by code_simp
  have h1: "\<forall>l\<in>set ([''Here you go:''] @ [''[1] Namaste''] @ ''[2] Kal''
                       # [''  subah milte'', '''', ''hain  ''] @ [''[3] Theek'']). LF \<notin> set l"
    by simp
  have h2: "re_match_index (strip ''[2] Kal'') = Some (''2'', '' Kal'')"
    by code_simp
  have h3: "\<forall>c\<in>set [''  subah milte'', '''', ''hain  '']. \<not> is_marker c"
    by code_simp
  have h4: "[''[3] Theek''] = [] \<or> is_marker (hd [''[3] Theek''])"
    by code_simp
  have h5: "\<forall>c\<in>set [''Here you go:'']. \<not> is_marker c"
    by code_simp
  have k: "int_of_digits ''2'' = 2"
    by code_simp
  have t: "joined_text '' Kal'' [''  subah milte'', '''', ''hain  ''] = ''Kal subah milte hain''"
    by code_simp
  show ?thesis
    using continuation_lines_joined [OF h1 h2 h3 h4 h5,
        of "[\<lparr>text' = ''a''\<rparr>, \<lparr>text' = ''b''\<rparr>, \<lparr>text' = ''c''\<rparr>]"]
    unfolding k t o by simp
qed

text \<open>
  Claim C7, as the code has it. The claim reads: when the number of parsed entries
  differs from \<open>N\<close>, a warning is surfaced, nothing aborts, and the list returned has
  length \<open>N\<close>. In the batch variant, for every input and every response: when some
  marker line has more than 4300 digits, \<^verbatim>\<open>int\<close> raises ValueError and the function
  returns nothing; otherwise the warning is printed exactly when the number of parsed
  entries differs from \<open>N\<close>, with both numbers in it, and the function returns a list of
  length \<open>max N k\<close>, with \<open>k\<close> the number of parsed entries whose ordinal lies in \<open>1..N\<close>,
  so of length \<open>N\<close> whenever \<open>k\<close> is at most \<open>N\<close>. The interactive variant has no check of
  the count; its missing warning is a slip against the batch variant, and the statement
  leaves it out.
\<close>

theorem count_mismatch_warns:
  "if markers_accepted r
   then \<exists>output_data.
          process_entire_json_raising data r
            = Inr (if length (parse_response r) \<noteq> length data
                   then [''Warning: Expected '' @ str_nat (length data)
                           @ '' translations but got ''
                           @ str_nat (length (parse_response r)) @ ''.'']
                   else [],
                   output_data)
          \<and> length output_data
              = max (length data) (length (filter (in_range (length data)) (parse_response r)))
   else process_entire_json_raising data r = Inl ValueError"
  using count_mismatch_value [of data r]
  by (simp add: process_entire_json_raising_eq)

text \<open>Two items and a response with one entry.\<close>

theorem count_mismatch_warns_witness:
  "\<exists>output_data.
     process_entire_json_raising [\<lparr>text' = ''x''\<rparr>, \<lparr>text' = ''y''\<rparr>] ''[1] a''
       = Inr ([''Warning: Expected 2 translations but got 1.''], output_data)
     \<and> length output_data = 2"
proof -
  have a: "markers_accepted ''[1] a''"
    by code_simp
  have e: "max (length [\<lparr>text' = ''x''\<rparr>, \<lparr>text' = ''y''\<rparr>])
             (length (filter (in_range (length [\<lparr>text' = ''x''\<rparr>, \<lparr>text' = ''y''\<rparr>]))
                        (parse_response ''[1] a''))) = 2"
    by code_simp
  have w: "(if length (parse_response ''[1] a'') \<noteq> length [\<lparr>text' = ''x''\<rparr>, \<lparr>text' = ''y''\<rparr>]
            then [''Warning: Expected '' @ str_nat (length [\<lparr>text' = ''x''\<rparr>, \<lparr>text' = ''y''\<rparr>])
                    @ '' translations but got '' @ str_nat (length (parse_response ''[1] a'')) @ ''.'']
            else []) = [''Warning: Expected 2 translations but got 1.'']"
    by code_simp
  show ?thesis
    using count_mismatch_warns [of "''[1] a''" "[\<lparr>text' = ''x''\<rparr>, \<lparr>text' = ''y''\<rparr>]"]
    unfolding e w using a by simp
qed

text \<open>
  Claim C7 as stated fails: for two input items and three parsed entries in range the
  warning is printed and the list returned has three items.
\<close>

theorem surplus_entries_not_truncated:
  "process_entire_json [\<lparr>text' = ''x''\<rparr>, \<lparr>text' = ''y''\<rparr>]
       (''[2] a'' @ [LF] @ ''[2] b'' @ [LF] @ ''[1] c'')
     = Inr ([''Warning: Expected 2 translations but got 3.''],
            [\<lparr>text' = ''c''\<rparr>, \<lparr>text' = ''a''\<rparr>, \<lparr>text' = ''b''\<rparr>])
   \<and> process_entire_json_raising [\<lparr>text' = ''x''\<rparr>, \<lparr>text' = ''y''\<rparr>]
       (''[2] a'' @ [LF] @ ''[2] b'' @ [LF] @ ''[1] c'')
     = Inr ([''Warning: Expected 2 translations but got 3.''],
            [\<lparr>text' = ''c''\<rparr>, \<lparr>text' = ''a''\<rparr>, \<lparr>text' = ''b''\<rparr>])"
  by code_simp

text \<open>
  Claim C8: the prompt of either variant is its fixed template with, at the place of
  the replacement field, the items \<^verbatim>\<open>[i] text\<close> for \<open>i\<close> from 1 to \<open>N\<close>, joined by
  two line feeds (a blank line between consecutive items). So every item occurs in
  the prompt, and every two consecutive items occur with exactly the blank line between
  them. The prompt is a function of the input list alone.
\<close>

theorem prompt_lists_items:
  "prompt data = template_head @ str_join [LF, LF] (numbered (map text' data)) @ template_tail
   \<and> prompt_st data
       = template_head_st @ str_join [LF, LF] (numbered (map text' data)) @ template_tail_st
   \<and> (\<forall>i<length data.
         sublist (entry_line (i + 1) (text' (data ! i))) (prompt data)
         \<and> sublist (entry_line (i + 1) (text' (data ! i))) (prompt_st data))
   \<and> (\<forall>i. Suc i < length data \<longrightarrow>
         sublist (entry_line (i + 1) (text' (data ! i)) @ [LF, LF]
                    @ entry_line (i + 2) (text' (data ! Suc i))) (prompt data)
         \<and> sublist (entry_line (i + 1) (text' (data ! i)) @ [LF, LF]
                    @ entry_line (i + 2) (text' (data ! Suc i))) (prompt_st data))"
proof (intro conjI allI impI)
  show p: "prompt data
             = template_head @ str_join [LF, LF] (numbered (map text' data)) @ template_tail"
    by (simp add: prompt_def texts_with_indices_numbered)
  show q: "prompt_st data
             = template_head_st @ str_join [LF, LF] (numbered (map text' data)) @ template_tail_st"
    by (simp add: prompt_st_def texts_with_indices_st_numbered)
  fix i
  {
    assume i: "i < length data"
    show "sublist (entry_line (i + 1) (text' (data ! i))) (prompt data)"
      unfolding p by (rule sublist_framed) (rule item_in_join [OF i])
    show "sublist (entry_line (i + 1) (text' (data ! i))) (prompt_st data)"
      unfolding q by (rule sublist_framed) (rule item_in_join [OF i])
  }
  {
    assume i: "Suc i < length data"
    show "sublist (entry_line (i + 1) (text' (data ! i)) @ [LF, LF]
                    @ entry_line (i + 2) (text' (data ! Suc i))) (prompt data)"
      unfolding p by (rule sublist_framed) (rule item_pair_in_join [OF i])
    show "sublist (entry_line (i + 1) (text' (data ! i)) @ [LF, LF]
                    @ entry_line (i + 2) (text' (data ! Suc i))) (prompt_st data)"
      unfolding q by (rule sublist_framed) (rule item_pair_in_join [OF i])
  }
qed

text \<open>The first item of a prompt for two items, and the two items together.\<close>

theorem prompt_lists_items_witness:
  "sublist (entry_line (0 + 1) ''Hello'')
     (prompt [\<lparr>text' = ''Hello''\<rparr>, \<lparr>text' = ''World''\<rparr>])
   \<and> sublist (entry_line (0 + 1) ''Hello'' @ [LF, LF] @ entry_line (0 + 2) ''World'')
     (prompt_st [\<lparr>text' = ''Hello''\<rparr>, \<lparr>text' = ''World''\<rparr>])"
proof -
  let ?data = "[\<lparr>text' = ''Hello''\<rparr>, \<lparr>text' = ''World''\<rparr>]"
  have single: "\<forall>i<length ?data.
         sublist (entry_line (i + 1) (text' (?data ! i))) (prompt ?data)
         \<and> sublist (entry_line (i + 1) (text' (?data ! i))) (prompt_st ?data)"
    and pair: "\<forall>i. Suc i < length ?data \<longrightarrow>
         sublist (entry_line (i + 1) (text' (?data ! i)) @ [LF, LF]
                    @ entry_line (i + 2) (text' (?data ! Suc i))) (prompt ?data)
         \<and> sublist (entry_line (i + 1) (text' (?data ! i)) @ [LF, LF]
                    @ entry_line (i + 2) (text' (?data ! Suc i))) (prompt_st ?data)"
    using prompt_lists_items [of ?data] by blast+
  have "sublist (entry_line (0 + 1) (text' (?data ! 0))) (prompt ?data)"
    using single [rule_format, of 0] by simp
  moreover
  have "sublist (entry_line (0 + 1) (text' (?data ! 0)) @ [LF, LF]
                   @ entry_line (0 + 2) (text' (?data ! Suc 0))) (prompt_st ?data)"
    using pair [rule_format, of 0] by simp
  ultimately show ?thesis by simp
qed

text \<open>
  Claim C9: the scanner of the interactive variant yields the entries the scanner of
  the batch variant yields, and \<^verbatim>\<open>process_json\<close> returns the list that
  \<^verbatim>\<open>process_entire_json\<close> returns, for every input list and every response.
\<close>

theorem variants_agree:
  "parse_response_st r = parse_response r
   \<and> process_json data r
       = (case process_entire_json data r of
            Inl e \<Rightarrow> Inl e
          | Inr (warnings, output_data) \<Rightarrow> Inr output_data)"
  by (simp add: parse_response_st_eq process_entire_json_eq process_json_eq)

text \<open>Three items and a response with two entries out of order.\<close>

theorem variants_agree_witness:
  "parse_response_st (''[2] b'' @ [LF] @ ''[1] a'') = parse_response (''[2] b'' @ [LF] @ ''[1] a'')
   \<and> process_json [\<lparr>text' = ''x''\<rparr>, \<lparr>text' = ''y''\<rparr>, \<lparr>text' = ''z''\<rparr>] (''[2] b'' @ [LF] @ ''[1] a'')
     = Inr [\<lparr>text' = ''a''\<rparr>, \<lparr>text' = ''b''\<rparr>, \<lparr>text' = ''[Translation missing for: z]''\<rparr>]"
proof -
  have e: "process_entire_json [\<lparr>text' = ''x''\<rparr>, \<lparr>text' = ''y''\<rparr>, \<lparr>text' = ''z''\<rparr>]
             (''[2] b'' @ [LF] @ ''[1] a'')
           = Inr ([''Warning: Expected 3 translations but got 2.''],
                  [\<lparr>text' = ''a''\<rparr>, \<lparr>text' = ''b''\<rparr>, \<lparr>text' = ''[Translation missing for: z]''\<rparr>])"
    by code_simp
  show ?thesis
    using variants_agree [of "''[2] b'' @ [LF] @ ''[1] a''"
        "[\<lparr>text' = ''x''\<rparr>, \<lparr>text' = ''y''\<rparr>, \<lparr>text' = ''z''\<rparr>]"]
    unfolding e by simp
qed

text \<open>
  Claim C10: the output of either variant is the texts of the parsed entries whose
  ordinal lies in \<open>1..N\<close>, in sorted order, followed by the placeholders; an entry with an
  ordinal below 1 or above \<open>N\<close> is filtered out before anything is appended.
\<close>

theorem reassembled_in_range_only:
  "process_entire_json data r
     = Inr (count_warning data (parse_response r),
            map (\<lambda>e. \<lparr>text' = snd e\<rparr>)
                (filter (in_range (length data)) (sort_key fst (parse_response r)))
              @ placeholders_from data
                  (length (filter (in_range (length data)) (sort_key fst (parse_response r)))))
   \<and> process_json data r
     = Inr (map (\<lambda>e. \<lparr>text' = snd e\<rparr>)
                (filter (in_range (length data)) (sort_key fst (parse_response_st r)))
              @ placeholders_from data
                  (length (filter (in_range (length data)) (sort_key fst (parse_response_st r)))))"
  by (simp add: process_entire_json_eq process_json_eq collect_filter parse_response_st_eq)

text \<open>One item and the ordinals 0, 2 and 1.\<close>

theorem reassembled_in_range_only_witness:
  "process_entire_json [\<lparr>text' = ''x''\<rparr>] (''[0] zero'' @ [LF] @ ''[2] two'' @ [LF] @ ''[1] one'')
     = Inr ([''Warning: Expected 1 translations but got 3.''], [\<lparr>text' = ''one''\<rparr>])
   \<and> process_json [\<lparr>text' = ''x''\<rparr>] (''[0] zero'' @ [LF] @ ''[2] two'' @ [LF] @ ''[1] one'')
     = Inr [\<lparr>text' = ''one''\<rparr>]"
proof -
  have w: "count_warning [\<lparr>text' = ''x''\<rparr>]
             (parse_response (''[0] zero'' @ [LF] @ ''[2] two'' @ [LF] @ ''[1] one''))
           = [''Warning: Expected 1 translations but got 3.'']"
    by code_simp
  have f: "filter (in_range (length [\<lparr>text' = ''x''\<rparr>]))
             (sort_key fst (parse_response (''[0] zero'' @ [LF] @ ''[2] two'' @ [LF] @ ''[1] one'')))
           = [(1, ''one'')]"
    by code_simp
  have f': "filter (in_range (length [\<lparr>text' = ''x''\<rparr>]))
             (sort_key fst (parse_response_st (''[0] zero'' @ [LF] @ ''[2] two'' @ [LF] @ ''[1] one'')))
           = [(1, ''one'')]"
    by code_simp
  have p: "placeholders_from [\<lparr>text' = ''x''\<rparr>] (length [(1::nat, ''one'')]) = []"
    by code_simp
  show ?thesis
    using reassembled_in_range_only [of "[\<lparr>text' = ''x''\<rparr>]"
        "''[0] zero'' @ [LF] @ ''[2] two'' @ [LF] @ ''[1] one''"]
    unfolding w f f' p by simp
qed

end
